theory Spec2Isabelle
  imports Main "HOL-Library.Multiset"
begin

section \<open>Package optimizer: the domain types (internal/domain/types.go)\<close>

text \<open>
  Go's \<open>int\<close> has 64 bits on the platforms the service runs on. The model computes on
  \<open>int\<close> and writes the wrap-around out (\<open>wrap64\<close>) where a sum can leave the 64-bit
  range: \<open>quantity + maxPackageSize\<close> on line 109 and \<open>maxQuantity + 1\<close>, the length
  of the two tables. Once both \<open>make\<close> calls have succeeded, \<open>maxQuantity + 1\<close> is a
  slice length, and for the positive sizes of a constructed optimizer every number the
  loops compute lies between \<open>- maxQuantity\<close> and \<open>2 * maxQuantity + 1\<close>, inside the
  range; those sums are written without \<open>wrap64\<close>. \<open>int64\<close> holds of the values a Go
  \<open>int\<close> can have. Slices are lists; a \<open>nil\<close> slice and an empty slice are both
  \<open>[]\<close> (the code only takes their \<open>len\<close> and copies them).
\<close>

definition int64 :: "int \<Rightarrow> bool" where
  "int64 x \<longleftrightarrow> - (2 ^ 63) \<le> x \<and> x < 2 ^ 63"

definition wrap64 :: "int \<Rightarrow> int" where
  "wrap64 x = (x + 2 ^ 63) mod 2 ^ 64 - 2 ^ 63"

record PackageCount =
  Size :: int
  Count :: int

record OptimizationResult =
  Requested :: int
  TotalDelivered :: int
  OverDelivery :: int
  Packages :: "string \<rightharpoonup> int"

record Optimizer =
  packageSizes :: "int list"

record solution =
  totalDelivered :: int
  packages :: "PackageCount list"

text \<open>
  A call of a Go function either returns or panics. \<open>NewOptimizer\<close> has the single
  result \<open>*Optimizer\<close> and no \<open>error\<close> result, so its failures are panics carrying
  the message given to \<open>panic\<close>; an index expression out of range is a panic of the
  runtime.
\<close>

datatype 'a outcome = Returns 'a | Panics string

text \<open>
  The only error \<open>Optimize\<close> builds is
  \<open>fmt.Errorf("quantity must be non-negative, got %d", quantity)\<close>;
  the constructor carries the quantity printed in the message.
\<close>

datatype error = InvalidQuantity int

section \<open>Decimal rendering: \<open>fmt.Sprintf("%d", n)\<close>\<close>

fun digits :: "nat \<Rightarrow> string" where
  "digits n = (if n < 10 then [char_of (48 + n)]
               else digits (n div 10) @ [char_of (48 + n mod 10)])"

declare digits.simps [simp del]

definition fmt_d :: "int \<Rightarrow> string" where
  "fmt_d n = (if n < 0 then CHR ''-'' # digits (nat (- n)) else digits (nat n))"

section \<open>Construction: \<open>NewOptimizer\<close> (optimizer.go, lines 17-39)\<close>

text \<open>
  \<open>sort.Sort(sort.Reverse(sort.IntSlice(sizes)))\<close> leaves the copy in non-increasing
  order; on integers the sorted arrangement of a slice is unique, so the library call
  is the function \<open>rev \<circ> sort\<close>.
\<close>

definition sort_descending :: "int list \<Rightarrow> int list" where
  "sort_descending xs = rev (sort xs)"

definition NewOptimizer :: "int list \<Rightarrow> Optimizer outcome" where
  "NewOptimizer sizes_in =
     (if length sizes_in = 0 then Panics ''package sizes cannot be empty''
      else if list_ex (\<lambda>size. size \<le> 0) sizes_in then Panics ''package sizes must be positive''
      else Returns \<lparr>packageSizes = sort_descending sizes_in\<rparr>)"

section \<open>The solver: \<open>findOptimalSolution\<close> (optimizer.go, lines 105-196)\<close>

text \<open>
  Lines 150-166: copy the breakdown of the remaining quantity, increment the count of
  the first entry whose size is \<open>packageSize\<close>, and append a fresh entry with count 1
  when no entry has that size.
\<close>

fun add_package :: "int \<Rightarrow> PackageCount list \<Rightarrow> PackageCount list" where
  "add_package packageSize [] = [\<lparr>Size = packageSize, Count = 1\<rparr>]"
| "add_package packageSize (p # ps) =
     (if Size p = packageSize then p\<lparr>Count := Count p + 1\<rparr> # ps
      else p # add_package packageSize ps)"

type_synonym table = "int list \<times> PackageCount list list"

text \<open>
  An index expression \<open>xs[i]\<close> panics unless \<open>0 \<le> i < len(xs)\<close>. Every index
  expression of the solver is guarded by \<open>in_range\<close>, in the order in which the code
  evaluates them; the message stands for Go's "index out of range".
\<close>

definition in_range :: "'a list \<Rightarrow> int \<Rightarrow> bool" where
  "in_range xs i \<longleftrightarrow> 0 \<le> i \<and> i < int (length xs)"

definition and_then :: "'a outcome \<Rightarrow> ('a \<Rightarrow> 'b outcome) \<Rightarrow> 'b outcome" where
  "and_then r f = (case r of Panics msg \<Rightarrow> Panics msg | Returns x \<Rightarrow> f x)"

text \<open>Lines 147-169: the update of entry \<open>i\<close> once the candidate is accepted.\<close>

definition store_entry :: "int \<Rightarrow> int \<Rightarrow> int \<Rightarrow> int \<Rightarrow> table \<Rightarrow> table outcome" where
  "store_entry i remaining packageSize totalOverDelivery t =
     (case t of (dp, packageCounts) \<Rightarrow>
        if in_range dp i \<and> in_range packageCounts remaining \<and> in_range packageCounts i
        then Returns (dp[nat i := totalOverDelivery],
                      packageCounts[nat i := add_package packageSize (packageCounts ! nat remaining)])
        else Panics ''index out of range'')"

text \<open>
  Lines 128-172: the body of the inner loop, for one package size. The condition on
  lines 144-145 is evaluated left to right, so the breakdown lengths are read only
  when the over-deliveries are equal.
\<close>

definition try_package :: "int \<Rightarrow> int \<Rightarrow> int \<Rightarrow> int \<Rightarrow> table \<Rightarrow> table outcome" where
  "try_package quantity maxQuantity i packageSize t =
     (case t of (dp, packageCounts) \<Rightarrow>
        if packageSize \<le> i then
          let remaining = i - packageSize;
              newOverDelivery = max 0 (i - quantity)
          in if \<not> in_range dp remaining then Panics ''index out of range''
             else if dp ! nat remaining \<noteq> maxQuantity + 1 then
               let totalOverDelivery = dp ! nat remaining + newOverDelivery
               in if \<not> in_range dp i then Panics ''index out of range''
                  else if totalOverDelivery < dp ! nat i
                  then store_entry i remaining packageSize totalOverDelivery t
                  else if totalOverDelivery = dp ! nat i then
                    if \<not> (in_range packageCounts remaining \<and> in_range packageCounts i)
                    then Panics ''index out of range''
                    else if int (length (packageCounts ! nat remaining)) + 1
                              < int (length (packageCounts ! nat i))
                    then store_entry i remaining packageSize totalOverDelivery t
                    else Returns t
                  else Returns t
             else Returns t
        else Returns t)"

text \<open>Lines 128-173: \<open>for _, packageSize := range o.packageSizes\<close>.\<close>

fun try_sizes :: "int \<Rightarrow> int \<Rightarrow> int \<Rightarrow> int list \<Rightarrow> table \<Rightarrow> table outcome" where
  "try_sizes quantity maxQuantity i [] t = Returns t"
| "try_sizes quantity maxQuantity i (packageSize # rest) t =
     and_then (try_package quantity maxQuantity i packageSize t)
       (try_sizes quantity maxQuantity i rest)"

text \<open>Lines 126-174: \<open>for i := 1; i <= maxQuantity; i++\<close>, started at \<open>i\<close>.\<close>

function fill_table :: "int list \<Rightarrow> int \<Rightarrow> int \<Rightarrow> int \<Rightarrow> table \<Rightarrow> table outcome" where
  "fill_table sizes quantity maxQuantity i t =
     (if i \<le> maxQuantity
      then case try_sizes quantity maxQuantity i sizes t of
             Panics msg \<Rightarrow> Panics msg
           | Returns t' \<Rightarrow> fill_table sizes quantity maxQuantity (i + 1) t'
      else Returns t)"
  by pat_completeness auto
termination
  by (relation "measure (\<lambda>(sizes, quantity, maxQuantity, i, t). nat (maxQuantity + 1 - i))") auto

declare fill_table.simps [simp del]

text \<open>Lines 182-189: the final scan, started at \<open>i\<close> with the best pair found so far.\<close>

function scan_best ::
  "int list \<Rightarrow> PackageCount list list \<Rightarrow> int \<Rightarrow> int \<Rightarrow> int \<Rightarrow> int \<Rightarrow> (int \<times> int) outcome" where
  "scan_best dp packageCounts maxQuantity i bestQuantity bestOverDelivery =
     (if i \<le> maxQuantity
      then if \<not> in_range dp i then Panics ''index out of range''
           else if dp ! nat i < bestOverDelivery
           then scan_best dp packageCounts maxQuantity (i + 1) i (dp ! nat i)
           else if dp ! nat i = bestOverDelivery then
             if \<not> (in_range packageCounts i \<and> in_range packageCounts bestQuantity)
             then Panics ''index out of range''
             else if length (packageCounts ! nat i) < length (packageCounts ! nat bestQuantity)
             then scan_best dp packageCounts maxQuantity (i + 1) i (dp ! nat i)
             else scan_best dp packageCounts maxQuantity (i + 1) bestQuantity bestOverDelivery
           else scan_best dp packageCounts maxQuantity (i + 1) bestQuantity bestOverDelivery
      else Returns (bestQuantity, bestOverDelivery))"
  by pat_completeness auto
termination
  by (relation "measure (\<lambda>(dp, packageCounts, maxQuantity, i, best). nat (maxQuantity + 1 - i))")
    auto

declare scan_best.simps [simp del]

text \<open>
  \<open>make\<close> is the runtime's \<open>makeslice\<close>: it panics with "len out of range" when the
  length is negative, when the size in bytes (element size times length) does not fit
  an unsigned 64-bit word, or when that size exceeds the runtime's allocation bound.
  The bound is not part of the repository: it is the parameter \<open>maxAlloc\<close> of the
  solver (\<open>runtime.maxAlloc\<close>, \<open>2 ^ 48\<close> on linux/amd64), and every theorem holds for
  every value of it. A length that passes these checks is taken to be allocated:
  a machine that runs out of memory ends the process, not the call, and is not
  modelled. An \<open>int\<close> takes 8 bytes, the header of a \<open>[]PackageCount\<close> slice 24.
\<close>

definition make_fails :: "int \<Rightarrow> int \<Rightarrow> int \<Rightarrow> bool" where
  "make_fails maxAlloc elem_size len \<longleftrightarrow>
     len < 0 \<or> 2 ^ 64 \<le> elem_size * len \<or> maxAlloc < elem_size * len"

text \<open>
  Lines 113-123: the two \<open>make\<close> calls with the length \<open>maxQuantity + 1\<close>, the loop that
  writes the sentinel \<open>maxQuantity + 1\<close> everywhere, and the base case at index 0.
\<close>

definition init_table :: "int \<Rightarrow> int \<Rightarrow> table outcome" where
  "init_table maxAlloc maxQuantity =
     (let n = wrap64 (maxQuantity + 1)
      in if make_fails maxAlloc 8 n then Panics ''makeslice: len out of range''
         else if make_fails maxAlloc 24 n then Panics ''makeslice: len out of range''
         else if n = 0 then Panics ''index out of range''
         else Returns ((replicate (nat n) n)[0 := 0], (replicate (nat n) [])[0 := []]))"

definition findOptimalSolution :: "int \<Rightarrow> Optimizer \<Rightarrow> int \<Rightarrow> solution outcome" where
  "findOptimalSolution maxAlloc opt quantity =
     (case packageSizes opt of
        [] \<Rightarrow> Panics ''index out of range''
      | maxPackageSize # _ \<Rightarrow>
          let maxQuantity = wrap64 (quantity + maxPackageSize)
          in and_then (init_table maxAlloc maxQuantity) (\<lambda>t0.
             and_then (fill_table (packageSizes opt) quantity maxQuantity 1 t0) (\<lambda>(dp, packageCounts).
               if \<not> in_range dp quantity then Panics ''index out of range''
               else and_then (scan_best dp packageCounts maxQuantity (quantity + 1) quantity
                                (dp ! nat quantity)) (\<lambda>(bestQuantity, bestOverDelivery).
                 if \<not> in_range packageCounts bestQuantity then Panics ''index out of range''
                 else Returns \<lparr>totalDelivered = bestQuantity,
                               packages = packageCounts ! nat bestQuantity\<rparr>))))"

section \<open>\<open>Optimize\<close> (optimizer.go, lines 45-80)\<close>

text \<open>Lines 73-77: the breakdown is written into the string-keyed result map.\<close>

definition put_package :: "PackageCount \<Rightarrow> (string \<rightharpoonup> int) \<Rightarrow> (string \<rightharpoonup> int)" where
  "put_package pkg m = (if Count pkg > 0 then m(fmt_d (Size pkg) \<mapsto> Count pkg) else m)"

text \<open>
  The two results \<open>(*OptimizationResult, error)\<close> are a pair of options, \<open>None\<close> for
  \<open>nil\<close>.
\<close>

definition Optimize ::
  "int \<Rightarrow> Optimizer \<Rightarrow> int \<Rightarrow> (OptimizationResult option \<times> error option) outcome" where
  "Optimize maxAlloc opt quantity =
     (if quantity < 0 then Returns (None, Some (InvalidQuantity quantity))
      else if quantity = 0 then
        Returns (Some \<lparr>Requested = 0, TotalDelivered = 0, OverDelivery = 0,
                       Packages = Map.empty\<rparr>, None)
      else
        and_then (findOptimalSolution maxAlloc opt quantity) (\<lambda>sol.
          Returns (Some \<lparr>Requested = quantity,
                         TotalDelivered = totalDelivered sol,
                         OverDelivery = totalDelivered sol - quantity,
                         Packages = fold put_package (packages sol) Map.empty\<rparr>, None)))"

section \<open>The slices in a store\<close>

text \<open>
  The functional model above passes slices by value. To speak about which slices a call
  writes, the \<open>[]int\<close> arrays are placed in a store: an array lives at an address,
  \<open>lim\<close> is the next address \<open>make\<close> hands out, and a slice variable is the address
  of its array (every \<open>[]int\<close> slice of the program spans a whole array: the argument
  of \<open>NewOptimizer\<close>, its copy \<open>sizes\<close>, and \<open>dp\<close>). The breakdowns have element
  type \<open>PackageCount\<close>, so they cannot share storage with an \<open>[]int\<close> array and stay
  values.
\<close>

record store =
  arrays :: "nat \<Rightarrow> int list"
  lim :: nat

text \<open>\<open>make([]int, n)\<close>: a fresh array of zeros.\<close>

definition make_ints :: "store \<Rightarrow> nat \<Rightarrow> nat \<times> store" where
  "make_ints st n =
     (lim st, st\<lparr>arrays := (arrays st)(lim st := replicate n 0), lim := lim st + 1\<rparr>)"

definition put_array :: "store \<Rightarrow> nat \<Rightarrow> int list \<Rightarrow> store" where
  "put_array st a xs = st\<lparr>arrays := (arrays st)(a := xs)\<rparr>"

text \<open>\<open>copy(dst, src)\<close> copies as many elements as the shorter slice has.\<close>

definition copy_ints :: "store \<Rightarrow> nat \<Rightarrow> nat \<Rightarrow> store" where
  "copy_ints st dst src =
     (let n = min (length (arrays st dst)) (length (arrays st src))
      in put_array st dst (take n (arrays st src) @ drop n (arrays st dst)))"

record Optimizer_st =
  packageSizes_at :: nat

text \<open>
  \<open>NewOptimizer\<close>, lines 17-39, with the argument slice at address
  \<open>packageSizes_in\<close>; \<open>sort.Sort\<close> sorts the array of \<open>sizes\<close> in place.
\<close>

definition NewOptimizer_st :: "store \<Rightarrow> nat \<Rightarrow> (Optimizer_st \<times> store) outcome" where
  "NewOptimizer_st st packageSizes_in =
     (if length (arrays st packageSizes_in) = 0 then Panics ''package sizes cannot be empty''
      else if list_ex (\<lambda>size. size \<le> 0) (arrays st packageSizes_in)
      then Panics ''package sizes must be positive''
      else case make_ints st (length (arrays st packageSizes_in)) of
             (sizes, st1) \<Rightarrow>
               let st2 = copy_ints st1 sizes packageSizes_in;
                   st3 = put_array st2 sizes (sort_descending (arrays st2 sizes))
               in Returns (\<lparr>packageSizes_at = sizes\<rparr>, st3))"

text \<open>
  The body of the inner loop reads and writes one \<open>[]int\<close> array only, \<open>dp\<close>
  (\<open>packageSize\<close> is a copy of the element): it is \<open>try_package\<close> on the array at
  address \<open>dp\<close>, written back.
\<close>

type_synonym solver_state = "store \<times> PackageCount list list"

definition try_package_st ::
  "nat \<Rightarrow> int \<Rightarrow> int \<Rightarrow> int \<Rightarrow> int \<Rightarrow> solver_state \<Rightarrow> solver_state outcome" where
  "try_package_st dp quantity maxQuantity i packageSize s =
     (case s of (st, packageCounts) \<Rightarrow>
        and_then (try_package quantity maxQuantity i packageSize (arrays st dp, packageCounts))
          (\<lambda>(dp', packageCounts'). Returns (put_array st dp dp', packageCounts')))"

text \<open>
  \<open>for _, packageSize := range o.packageSizes\<close>: the length \<open>n\<close> is taken once, the
  element \<open>k\<close> is read from the array when iteration \<open>k\<close> starts.
\<close>

function try_sizes_st ::
  "nat \<Rightarrow> nat \<Rightarrow> int \<Rightarrow> int \<Rightarrow> int \<Rightarrow> nat \<Rightarrow> nat \<Rightarrow> solver_state \<Rightarrow> solver_state outcome" where
  "try_sizes_st sizes dp quantity maxQuantity i k n s =
     (if k < n
      then if \<not> k < length (arrays (fst s) sizes) then Panics ''index out of range''
           else and_then
                  (try_package_st dp quantity maxQuantity i (arrays (fst s) sizes ! k) s)
                  (try_sizes_st sizes dp quantity maxQuantity i (k + 1) n)
      else Returns s)"
  by pat_completeness auto
termination
  by (relation "measure (\<lambda>(sizes, dp, quantity, maxQuantity, i, k, n, s). n - k)") auto

declare try_sizes_st.simps [simp del]

function fill_table_st ::
  "nat \<Rightarrow> nat \<Rightarrow> int \<Rightarrow> int \<Rightarrow> int \<Rightarrow> solver_state \<Rightarrow> solver_state outcome" where
  "fill_table_st sizes dp quantity maxQuantity i s =
     (if i \<le> maxQuantity
      then case try_sizes_st sizes dp quantity maxQuantity i 0
                  (length (arrays (fst s) sizes)) s of
             Panics msg \<Rightarrow> Panics msg
           | Returns s' \<Rightarrow> fill_table_st sizes dp quantity maxQuantity (i + 1) s'
      else Returns s)"
  by pat_completeness auto
termination
  by (relation "measure (\<lambda>(sizes, dp, quantity, maxQuantity, i, s). nat (maxQuantity + 1 - i))")
    auto

declare fill_table_st.simps [simp del]

definition findOptimalSolution_st ::
  "int \<Rightarrow> store \<Rightarrow> Optimizer_st \<Rightarrow> int \<Rightarrow> (solution \<times> store) outcome" where
  "findOptimalSolution_st maxAlloc st opt quantity =
     (case arrays st (packageSizes_at opt) of
        [] \<Rightarrow> Panics ''index out of range''
      | maxPackageSize # _ \<Rightarrow>
          let maxQuantity = wrap64 (quantity + maxPackageSize);
              n = wrap64 (maxQuantity + 1)
          in if make_fails maxAlloc 8 n then Panics ''makeslice: len out of range''
             else case make_ints st (nat n) of
               (dp, st1) \<Rightarrow>
                 if make_fails maxAlloc 24 n then Panics ''makeslice: len out of range''
                 else
                   let st2 = put_array st1 dp (replicate (nat n) n)
                   in if n = 0 then Panics ''index out of range''
                      else
                        let st3 = put_array st2 dp ((arrays st2 dp)[0 := 0]);
                            packageCounts0 = (replicate (nat n) [])[0 := []]
                        in and_then
                           (fill_table_st (packageSizes_at opt) dp quantity maxQuantity 1
                              (st3, packageCounts0))
                           (\<lambda>(st4, packageCounts).
                              if \<not> in_range (arrays st4 dp) quantity
                              then Panics ''index out of range''
                              else and_then
                                     (scan_best (arrays st4 dp) packageCounts maxQuantity
                                        (quantity + 1) quantity (arrays st4 dp ! nat quantity))
                                     (\<lambda>(bestQuantity, bestOverDelivery).
                                        if \<not> in_range packageCounts bestQuantity
                                        then Panics ''index out of range''
                                        else Returns
                                               (\<lparr>totalDelivered = bestQuantity,
                                                 packages = packageCounts ! nat bestQuantity\<rparr>,
                                                st4))))"

definition Optimize_st ::
  "int \<Rightarrow> store \<Rightarrow> Optimizer_st \<Rightarrow> int \<Rightarrow>
     ((OptimizationResult option \<times> error option) \<times> store) outcome" where
  "Optimize_st maxAlloc st opt quantity =
     (if quantity < 0 then Returns ((None, Some (InvalidQuantity quantity)), st)
      else if quantity = 0 then
        Returns ((Some \<lparr>Requested = 0, TotalDelivered = 0, OverDelivery = 0,
                        Packages = Map.empty\<rparr>, None), st)
      else
        and_then (findOptimalSolution_st maxAlloc st opt quantity) (\<lambda>(sol, st').
          Returns ((Some \<lparr>Requested = quantity,
                          TotalDelivered = totalDelivered sol,
                          OverDelivery = totalDelivered sol - quantity,
                          Packages = fold put_package (packages sol) Map.empty\<rparr>, None), st')))"

text \<open>
  A caller that invokes \<open>Optimize\<close> once for each quantity of a list, every call on
  the store the call before it left, and collects the results.
\<close>

fun Optimize_calls ::
  "int \<Rightarrow> store \<Rightarrow> Optimizer_st \<Rightarrow> int list \<Rightarrow>
     ((OptimizationResult option \<times> error option) list \<times> store) outcome" where
  "Optimize_calls maxAlloc st opt [] = Returns ([], st)"
| "Optimize_calls maxAlloc st opt (quantity # rest) =
     and_then (Optimize_st maxAlloc st opt quantity) (\<lambda>(res, st').
       and_then (Optimize_calls maxAlloc st' opt rest) (\<lambda>(results, st'').
         Returns (res # results, st'')))"

section \<open>Specification-level notions\<close>

text \<open>
  Entry \<open>j\<close> of a table obeys the recurrence of the inner loop: it is at most the
  sentinel \<open>mQ + 1\<close>, at most every candidate \<open>dp[j - s] + max 0 (j - q)\<close> with a
  reachable \<open>j - s\<close>, and it is either still the sentinel (with no breakdown) or one of
  the candidates, with the breakdown built from that candidate.
\<close>

definition entry_ok :: "int list \<Rightarrow> int \<Rightarrow> int \<Rightarrow> table \<Rightarrow> int \<Rightarrow> bool" where
  "entry_ok sizes q mQ t j \<longleftrightarrow>
     (case t of (dp, pcs) \<Rightarrow>
        dp ! nat j \<le> mQ + 1 \<and>
        (\<forall>s\<in>set sizes. s \<le> j \<and> dp ! nat (j - s) \<noteq> mQ + 1 \<longrightarrow>
            dp ! nat j \<le> dp ! nat (j - s) + max 0 (j - q)) \<and>
        ((dp ! nat j = mQ + 1 \<and> pcs ! nat j = []) \<or>
         (\<exists>s\<in>set sizes. s \<le> j \<and> dp ! nat (j - s) \<noteq> mQ + 1 \<and>
            dp ! nat j = dp ! nat (j - s) + max 0 (j - q) \<and>
            pcs ! nat j = add_package s (pcs ! nat (j - s)))))"

text \<open>
  The invariant of the outer loop when it is about to run iteration \<open>i\<close>: both slices
  have length \<open>mQ + 1\<close>, entry 0 is the base case, the entries below \<open>i\<close> obey the
  recurrence, the entries from \<open>i\<close> on are untouched.
\<close>

definition filled_upto :: "int list \<Rightarrow> int \<Rightarrow> int \<Rightarrow> int \<Rightarrow> table \<Rightarrow> bool" where
  "filled_upto sizes q mQ i t \<longleftrightarrow>
     (case t of (dp, pcs) \<Rightarrow>
        length dp = nat (mQ + 1) \<and> length pcs = nat (mQ + 1) \<and>
        dp ! 0 = 0 \<and> pcs ! 0 = [] \<and>
        (\<forall>j. 1 \<le> j \<and> j < i \<longrightarrow> entry_ok sizes q mQ t j) \<and>
        (\<forall>j. i \<le> j \<and> j \<le> mQ \<longrightarrow> dp ! nat j = mQ + 1 \<and> pcs ! nat j = []))"

text \<open>
  A breakdown of the delivered quantity \<open>j\<close>: different entries have different sizes,
  every size is a catalog size, every count is above zero, and sizes times counts add up
  to \<open>j\<close>.
\<close>

definition breakdown_ok :: "int list \<Rightarrow> int \<Rightarrow> PackageCount list \<Rightarrow> bool" where
  "breakdown_ok sizes j ps \<longleftrightarrow>
     distinct (map Size ps) \<and>
     (\<forall>p\<in>set ps. Size p \<in> set sizes \<and> 0 < Count p) \<and>
     (\<Sum>p\<leftarrow>ps. Size p * Count p) = j"

text \<open>The table after the outer loop, for a catalog of positive sizes.\<close>

definition table_done :: "int list \<Rightarrow> int \<Rightarrow> int \<Rightarrow> table \<Rightarrow> bool" where
  "table_done sizes q mQ t \<longleftrightarrow>
     filled_upto sizes q mQ (mQ + 1) t \<and> (\<forall>s\<in>set sizes. 0 < s) \<and> 0 \<le> q \<and> q \<le> mQ"

text \<open>
  The invariant of the final scan at index \<open>i\<close>: the pair \<open>best\<close> is an index in
  \<open>[q, i)\<close> with its entry, and no entry in \<open>[q, i)\<close> is smaller.
\<close>

definition best_so_far :: "int list \<Rightarrow> int \<Rightarrow> int \<Rightarrow> int \<times> int \<Rightarrow> bool" where
  "best_so_far dp q i best \<longleftrightarrow>
     q \<le> fst best \<and> fst best < i \<and> snd best = dp ! nat (fst best) \<and>
     (\<forall>j. q \<le> j \<and> j < i \<longrightarrow> snd best \<le> dp ! nat j)"

text \<open>
  The count the result mapping holds for a package size (zero when the size has no key),
  and the key-value pairs a breakdown contributes to the mapping.
\<close>

definition count_for :: "(string \<rightharpoonup> int) \<Rightarrow> int \<Rightarrow> int" where
  "count_for m s = (case m (fmt_d s) of None \<Rightarrow> 0 | Some c \<Rightarrow> c)"

definition entries :: "PackageCount list \<Rightarrow> (string \<times> int) list" where
  "entries ps = map (\<lambda>p. (fmt_d (Size p), Count p)) ps"

text \<open>
  The two tables of \<open>n\<close> entries pass the checks of \<open>make\<close>: the larger one, of
  24-byte slice headers, does.
\<close>

definition tables_fit :: "int \<Rightarrow> int \<Rightarrow> bool" where
  "tables_fit maxAlloc n \<longleftrightarrow> 24 * n < 2 ^ 64 \<and> 24 * n \<le> maxAlloc"

text \<open>
  What the solver has to return for the quantity \<open>q\<close>: a delivered total of at least
  \<open>q\<close> that overshoots by less than the largest size, with a breakdown of that total,
  and no combination of catalog sizes reaching \<open>q\<close> delivers less.
\<close>

definition solution_ok :: "int list \<Rightarrow> int \<Rightarrow> solution \<Rightarrow> bool" where
  "solution_ok sizes q sol \<longleftrightarrow>
     q \<le> totalDelivered sol \<and>
     totalDelivered sol - q \<le> Max (set sizes) - 1 \<and>
     breakdown_ok sizes (totalDelivered sol) (packages sol) \<and>
     (\<forall>ps. set ps \<subseteq> set sizes \<and> q \<le> sum_list ps \<longrightarrow> totalDelivered sol \<le> sum_list ps)"

text \<open>
  Notions for the store: the table of the functional solver written back into the array
  at \<open>dp\<close>; a store that differs from an earlier one by one fresh array; a store that
  keeps every array of an earlier one.
\<close>

definition written_back :: "store \<Rightarrow> nat \<Rightarrow> table outcome \<Rightarrow> solver_state outcome" where
  "written_back st dp r =
     and_then r (\<lambda>(dp', packageCounts'). Returns (put_array st dp dp', packageCounts'))"

definition same_but :: "nat \<Rightarrow> store \<Rightarrow> store \<Rightarrow> bool" where
  "same_but fresh st st' \<longleftrightarrow>
     lim st' = lim st + 1 \<and> (\<forall>a. a \<noteq> fresh \<longrightarrow> arrays st' a = arrays st a)"

definition extends :: "store \<Rightarrow> store \<Rightarrow> bool" where
  "extends st st' \<longleftrightarrow> lim st \<le> lim st' \<and> (\<forall>a<lim st. arrays st' a = arrays st a)"

text \<open>What a call on the store hands to its caller: the result or the panic, without the store.\<close>

definition outcome_result :: "('a \<times> store) outcome \<Rightarrow> 'a outcome" where
  "outcome_result r = (case r of Panics msg \<Rightarrow> Panics msg | Returns (x, st) \<Rightarrow> Returns x)"

section \<open>The table built by the solver\<close>

lemma try_package_cases:
  assumes "0 < s" "0 < i" "nat i < length dp" "nat i < length pcs"
  shows "try_package q mQ i s (dp, pcs) = Returns (dp, pcs) \<or>
   (s \<le> i \<and> dp ! nat (i - s) \<noteq> mQ + 1 \<and>
    dp ! nat (i - s) + max 0 (i - q) \<le> dp ! nat i \<and>
    try_package q mQ i s (dp, pcs) =
      Returns (dp[nat i := dp ! nat (i - s) + max 0 (i - q)],
               pcs[nat i := add_package s (pcs ! nat (i - s))]))"
proof -
  have r: "in_range dp i" "in_range pcs i" "s \<le> i \<Longrightarrow> in_range dp (i - s)"
    "s \<le> i \<Longrightarrow> in_range pcs (i - s)"
    using assms by (auto simp: in_range_def)
  show ?thesis
    using r by (auto simp: try_package_def store_entry_def Let_def)
qed

lemma try_package_upper:
  assumes "try_package q mQ i s (dp, pcs) = Returns (dp', pcs')" "nat i < length dp"
    "s \<le> i" "dp ! nat (i - s) \<noteq> mQ + 1"
  shows "dp' ! nat i \<le> dp ! nat (i - s) + max 0 (i - q)"
  using assms by (auto simp: try_package_def store_entry_def Let_def split: if_splits)

lemma try_sizes_entry:
  assumes "0 < i" "nat i < length dp" "nat i < length pcs" "\<forall>s\<in>set ss. 0 < s"
  shows "\<exists>v b. try_sizes q mQ i ss (dp, pcs) = Returns (dp[nat i := v], pcs[nat i := b]) \<and>
           v \<le> dp ! nat i \<and>
           (\<forall>s\<in>set ss. s \<le> i \<and> dp ! nat (i - s) \<noteq> mQ + 1 \<longrightarrow>
               v \<le> dp ! nat (i - s) + max 0 (i - q)) \<and>
           ((v = dp ! nat i \<and> b = pcs ! nat i) \<or>
            (\<exists>s\<in>set ss. s \<le> i \<and> dp ! nat (i - s) \<noteq> mQ + 1 \<and>
               v = dp ! nat (i - s) + max 0 (i - q) \<and>
               b = add_package s (pcs ! nat (i - s))))"
  using assms
proof (induction ss arbitrary: dp pcs)
  case Nil
  show ?case
    by (rule exI[of _ "dp ! nat i"], rule exI[of _ "pcs ! nat i"]) simp
next
  case (Cons s ss)
  have spos: "0 < s" and sspos: "\<forall>s\<in>set ss. 0 < s" using Cons.prems by auto
  note cases = try_package_cases[OF spos Cons.prems(1,2,3), of q mQ]
  then obtain dp1 pcs1 where t1: "try_package q mQ i s (dp, pcs) = Returns (dp1, pcs1)"
    by blast
  have other: "\<And>s'. 0 < s' \<Longrightarrow> s' \<le> i \<Longrightarrow> nat (i - s') \<noteq> nat i"
    using Cons.prems(1) by linarith
  from cases t1
  have step: "(dp1 = dp \<and> pcs1 = pcs) \<or>
     (s \<le> i \<and> dp ! nat (i - s) \<noteq> mQ + 1 \<and>
      dp ! nat (i - s) + max 0 (i - q) \<le> dp ! nat i \<and>
      dp1 = dp[nat i := dp ! nat (i - s) + max 0 (i - q)] \<and>
      pcs1 = pcs[nat i := add_package s (pcs ! nat (i - s))])"
    by auto
  have len1: "nat i < length dp1" "nat i < length pcs1"
    using step Cons.prems by auto
  have same: "\<And>s'. 0 < s' \<Longrightarrow> s' \<le> i \<Longrightarrow>
      dp1 ! nat (i - s') = dp ! nat (i - s') \<and> pcs1 ! nat (i - s') = pcs ! nat (i - s')"
    using step other by auto
  have le1: "dp1 ! nat i \<le> dp ! nat i"
    using step Cons.prems by auto
  have up1: "s \<le> i \<and> dp ! nat (i - s) \<noteq> mQ + 1 \<longrightarrow>
      dp1 ! nat i \<le> dp ! nat (i - s) + max 0 (i - q)"
    using try_package_upper[OF t1] Cons.prems(2) by blast
  have src1: "(dp1 ! nat i = dp ! nat i \<and> pcs1 ! nat i = pcs ! nat i) \<or>
      (s \<le> i \<and> dp ! nat (i - s) \<noteq> mQ + 1 \<and>
       dp1 ! nat i = dp ! nat (i - s) + max 0 (i - q) \<and>
       pcs1 ! nat i = add_package s (pcs ! nat (i - s)))"
    using step Cons.prems by auto
  have upd: "\<And>v b. dp1[nat i := v] = dp[nat i := v] \<and> pcs1[nat i := b] = pcs[nat i := b]"
    using step by auto
  from Cons.IH[OF Cons.prems(1) len1 sspos]
  obtain v b where
    f: "try_sizes q mQ i ss (dp1, pcs1) = Returns (dp1[nat i := v], pcs1[nat i := b])" and
    le: "v \<le> dp1 ! nat i" and
    up: "\<forall>s\<in>set ss. s \<le> i \<and> dp1 ! nat (i - s) \<noteq> mQ + 1 \<longrightarrow>
               v \<le> dp1 ! nat (i - s) + max 0 (i - q)" and
    src: "(v = dp1 ! nat i \<and> b = pcs1 ! nat i) \<or>
            (\<exists>s\<in>set ss. s \<le> i \<and> dp1 ! nat (i - s) \<noteq> mQ + 1 \<and>
               v = dp1 ! nat (i - s) + max 0 (i - q) \<and>
               b = add_package s (pcs1 ! nat (i - s)))"
    by blast
  have A: "try_sizes q mQ i (s # ss) (dp, pcs) = Returns (dp[nat i := v], pcs[nat i := b])"
    using f t1 upd by (simp add: and_then_def)
  have B: "v \<le> dp ! nat i" using le le1 by linarith
  have C: "\<forall>s'\<in>set (s # ss). s' \<le> i \<and> dp ! nat (i - s') \<noteq> mQ + 1 \<longrightarrow>
               v \<le> dp ! nat (i - s') + max 0 (i - q)"
  proof
    fix s' assume "s' \<in> set (s # ss)"
    then consider "s' = s" | "s' \<in> set ss" by auto
    then show "s' \<le> i \<and> dp ! nat (i - s') \<noteq> mQ + 1 \<longrightarrow>
               v \<le> dp ! nat (i - s') + max 0 (i - q)"
    proof cases
      case 1
      then show ?thesis using up1 le by auto
    next
      case 2
      then show ?thesis using up same sspos by auto
    qed
  qed
  have D: "(v = dp ! nat i \<and> b = pcs ! nat i) \<or>
            (\<exists>s'\<in>set (s # ss). s' \<le> i \<and> dp ! nat (i - s') \<noteq> mQ + 1 \<and>
               v = dp ! nat (i - s') + max 0 (i - q) \<and>
               b = add_package s' (pcs ! nat (i - s')))"
  proof -
    from src show ?thesis
    proof
      assume "v = dp1 ! nat i \<and> b = pcs1 ! nat i"
      then show ?thesis using src1 by auto
    next
      assume "\<exists>s\<in>set ss. s \<le> i \<and> dp1 ! nat (i - s) \<noteq> mQ + 1 \<and>
               v = dp1 ! nat (i - s) + max 0 (i - q) \<and>
               b = add_package s (pcs1 ! nat (i - s))"
      then obtain s' where "s' \<in> set ss" "s' \<le> i" "dp1 ! nat (i - s') \<noteq> mQ + 1"
          "v = dp1 ! nat (i - s') + max 0 (i - q)" "b = add_package s' (pcs1 ! nat (i - s'))"
        by blast
      moreover have "0 < s'" using sspos \<open>s' \<in> set ss\<close> by auto
      ultimately show ?thesis using same[of s'] by auto
    qed
  qed
  from A B C D show ?case by blast
qed

lemma entry_ok_cong:
  assumes "\<forall>s\<in>set sizes. 0 < s" "0 \<le> j"
    "\<forall>k. 0 \<le> k \<and> k \<le> j \<longrightarrow> dp' ! nat k = dp ! nat k \<and> pcs' ! nat k = pcs ! nat k"
  shows "entry_ok sizes q mQ (dp', pcs') j = entry_ok sizes q mQ (dp, pcs) j"
proof -
  have j: "dp' ! nat j = dp ! nat j" "pcs' ! nat j = pcs ! nat j" using assms by auto
  have r: "\<And>s. s \<in> set sizes \<Longrightarrow> s \<le> j \<Longrightarrow>
      dp' ! nat (j - s) = dp ! nat (j - s) \<and> pcs' ! nat (j - s) = pcs ! nat (j - s)"
    using assms by auto
  show ?thesis
    unfolding entry_ok_def prod.case j
    using r by (intro conj_cong ball_cong bex_cong refl imp_cong disj_cong) auto
qed

lemma wrap64_id: "int64 x \<Longrightarrow> wrap64 x = x"
  by (simp add: int64_def wrap64_def)

lemma wrap64_int64: "int64 (wrap64 x)"
proof -
  have "0 \<le> (x + 2 ^ 63) mod 2 ^ 64" "(x + 2 ^ 63) mod 2 ^ 64 < (2 ^ 64 :: int)"
    by simp_all
  then show ?thesis by (simp add: int64_def wrap64_def)
qed

lemma wrap64_over:
  assumes "2 ^ 63 \<le> x" "x < 2 ^ 64 + 2 ^ 63"
  shows "wrap64 x = x - 2 ^ 64"
proof -
  have "(x + 2 ^ 63) mod 2 ^ 64 = x + 2 ^ 63 - 2 ^ 64"
    using assms by (intro int_mod_pos_eq[where q = 1]) simp_all
  then show ?thesis by (simp add: wrap64_def)
qed

lemma init_table_Returns:
  assumes "init_table maxAlloc mQ = Returns t" "int64 mQ"
  shows "0 \<le> mQ \<and> tables_fit maxAlloc (mQ + 1) \<and> filled_upto sizes q mQ 1 t"
proof -
  let ?n = "wrap64 (mQ + 1)"
  have ok: "\<not> make_fails maxAlloc 8 ?n" "\<not> make_fails maxAlloc 24 ?n" "?n \<noteq> 0"
    and t: "t = ((replicate (nat ?n) ?n)[0 := 0], (replicate (nat ?n) [])[0 := []])"
    using assms(1) by (auto simp: init_table_def Let_def split: if_splits)
  have n0: "0 < ?n" using ok by (auto simp: make_fails_def)
  have n: "?n = mQ + 1"
  proof (cases "mQ = 2 ^ 63 - 1")
    case True
    then have "?n = - (2 ^ 63)" using wrap64_over[of "mQ + 1"] by simp
    then show ?thesis using n0 by simp
  next
    case False
    then have "int64 (mQ + 1)" using assms(2) n0 by (auto simp: int64_def)
    then show ?thesis by (rule wrap64_id)
  qed
  have mQ: "0 \<le> mQ" using n n0 by simp
  have fit: "tables_fit maxAlloc (mQ + 1)"
    using ok(2) n by (auto simp: make_fails_def tables_fit_def)
  have "\<And>j. 1 \<le> j \<Longrightarrow> j \<le> mQ \<Longrightarrow> nat j < nat (mQ + 1) \<and> nat j \<noteq> 0" by linarith
  then have "filled_upto sizes q mQ 1 t"
    using mQ unfolding t n by (auto simp: filled_upto_def)
  then show ?thesis using mQ fit by simp
qed

lemma tables_fit_int64: "0 \<le> n \<Longrightarrow> tables_fit maxAlloc n \<Longrightarrow> int64 n"
  by (simp add: tables_fit_def int64_def)

lemma init_table_fits:
  assumes "0 \<le> mQ" "tables_fit maxAlloc (mQ + 1)"
  shows "\<exists>t. init_table maxAlloc mQ = Returns t"
proof -
  have "int64 (mQ + 1)" using assms by (intro tables_fit_int64) simp_all
  then have n: "wrap64 (mQ + 1) = mQ + 1" by (rule wrap64_id)
  show ?thesis
    using assms unfolding init_table_def n
    by (simp add: make_fails_def tables_fit_def Let_def)
qed

lemma init_table_unfit:
  assumes "int64 mQ" "mQ \<noteq> - 1" "\<not> (0 \<le> mQ \<and> tables_fit maxAlloc (mQ + 1))"
  shows "init_table maxAlloc mQ = Panics ''makeslice: len out of range''"
proof (cases "init_table maxAlloc mQ")
  case (Returns t)
  from init_table_Returns[OF Returns assms(1), of "[]" 0] assms(3) show ?thesis by simp
next
  case (Panics m)
  let ?n = "wrap64 (mQ + 1)"
  have "?n \<noteq> 0"
  proof (cases "mQ = 2 ^ 63 - 1")
    case True
    then have "?n = - (2 ^ 63)" using wrap64_over[of "mQ + 1"] by simp
    then show ?thesis by simp
  next
    case False
    then have "int64 (mQ + 1)" using assms(1,2) by (auto simp: int64_def)
    then have "?n = mQ + 1" by (rule wrap64_id)
    then show ?thesis using assms(2) by simp
  qed
  then show ?thesis
    using Panics by (auto simp: init_table_def Let_def split: if_splits)
qed

lemma fill_step:
  assumes inv: "filled_upto sizes q mQ i t" and i: "1 \<le> i" "i \<le> mQ"
    and pos: "\<forall>s\<in>set sizes. 0 < s"
  shows "\<exists>t'. try_sizes q mQ i sizes t = Returns t' \<and> filled_upto sizes q mQ (i + 1) t'"
proof -
  obtain dp pcs where t: "t = (dp, pcs)" by (cases t)
  have len: "length dp = nat (mQ + 1)" "length pcs = nat (mQ + 1)"
    and zero: "dp ! 0 = 0" "pcs ! 0 = []"
    and low: "\<And>j. 1 \<le> j \<Longrightarrow> j < i \<Longrightarrow> entry_ok sizes q mQ (dp, pcs) j"
    and high: "\<And>j. i \<le> j \<Longrightarrow> j \<le> mQ \<Longrightarrow> dp ! nat j = mQ + 1 \<and> pcs ! nat j = []"
    using inv unfolding filled_upto_def t by auto
  have ilen: "nat i < length dp" "nat i < length pcs" using i len by auto
  from try_sizes_entry[of i dp pcs sizes q mQ] i ilen pos
  obtain v b where
    f: "try_sizes q mQ i sizes (dp, pcs) = Returns (dp[nat i := v], pcs[nat i := b])" and
    le: "v \<le> dp ! nat i" and
    up: "\<forall>s\<in>set sizes. s \<le> i \<and> dp ! nat (i - s) \<noteq> mQ + 1 \<longrightarrow>
               v \<le> dp ! nat (i - s) + max 0 (i - q)" and
    src: "(v = dp ! nat i \<and> b = pcs ! nat i) \<or>
            (\<exists>s\<in>set sizes. s \<le> i \<and> dp ! nat (i - s) \<noteq> mQ + 1 \<and>
               v = dp ! nat (i - s) + max 0 (i - q) \<and>
               b = add_package s (pcs ! nat (i - s)))"
    by auto
  let ?dp = "dp[nat i := v]" and ?pcs = "pcs[nat i := b]"
  have other: "\<And>k. 0 \<le> k \<Longrightarrow> k \<noteq> i \<Longrightarrow> ?dp ! nat k = dp ! nat k \<and> ?pcs ! nat k = pcs ! nat k"
    using i by auto
  have at: "?dp ! nat i = v" "?pcs ! nat i = b" using ilen by auto
  have old: "dp ! nat i = mQ + 1" "pcs ! nat i = []" using high[of i] i by auto
  have E_low: "entry_ok sizes q mQ (?dp, ?pcs) j" if "1 \<le> j" "j < i" for j
  proof -
    have "entry_ok sizes q mQ (?dp, ?pcs) j = entry_ok sizes q mQ (dp, pcs) j"
      using that other by (intro entry_ok_cong pos) auto
    then show ?thesis using low[OF that] by simp
  qed
  have prev: "\<And>s. s \<in> set sizes \<Longrightarrow> s \<le> i \<Longrightarrow>
      ?dp ! nat (i - s) = dp ! nat (i - s) \<and> ?pcs ! nat (i - s) = pcs ! nat (i - s)"
    using pos other by auto
  have E_i: "entry_ok sizes q mQ (?dp, ?pcs) i"
    unfolding entry_ok_def prod.case at
  proof (intro conjI)
    show "v \<le> mQ + 1" using le old by simp
    show "\<forall>s\<in>set sizes. s \<le> i \<and> ?dp ! nat (i - s) \<noteq> mQ + 1 \<longrightarrow>
            v \<le> ?dp ! nat (i - s) + max 0 (i - q)"
      using up prev by auto
    show "(v = mQ + 1 \<and> b = []) \<or>
         (\<exists>s\<in>set sizes. s \<le> i \<and> ?dp ! nat (i - s) \<noteq> mQ + 1 \<and>
            v = ?dp ! nat (i - s) + max 0 (i - q) \<and>
            b = add_package s (?pcs ! nat (i - s)))"
      using src
    proof
      assume "v = dp ! nat i \<and> b = pcs ! nat i"
      then show ?thesis using old by simp
    next
      assume "\<exists>s\<in>set sizes. s \<le> i \<and> dp ! nat (i - s) \<noteq> mQ + 1 \<and>
               v = dp ! nat (i - s) + max 0 (i - q) \<and>
               b = add_package s (pcs ! nat (i - s))"
      then obtain s where "s \<in> set sizes" "s \<le> i" "dp ! nat (i - s) \<noteq> mQ + 1"
          "v = dp ! nat (i - s) + max 0 (i - q)" "b = add_package s (pcs ! nat (i - s))"
        by blast
      then show ?thesis using prev[of s] by (intro disjI2 bexI[of _ s]) auto
    qed
  qed
  have E: "entry_ok sizes q mQ (?dp, ?pcs) j" if "1 \<le> j" "j < i + 1" for j
    using that E_low[of j] E_i by (cases "j = i") auto
  have H: "?dp ! nat j = mQ + 1 \<and> ?pcs ! nat j = []" if "i + 1 \<le> j" "j \<le> mQ" for j
    using that other[of j] high[of j] i by auto
  have Z: "?dp ! 0 = 0" "?pcs ! 0 = []" using other[of 0] zero i by auto
  have "filled_upto sizes q mQ (i + 1) (?dp, ?pcs)"
    unfolding filled_upto_def prod.case
    using len Z E H by auto
  then show ?thesis unfolding t f by simp
qed

lemma fill_table_filled:
  assumes "filled_upto sizes q mQ i t" "1 \<le> i" "i \<le> mQ + 1" "\<forall>s\<in>set sizes. 0 < s"
  shows "\<exists>t'. fill_table sizes q mQ i t = Returns t' \<and> filled_upto sizes q mQ (mQ + 1) t'"
  using assms
proof (induction sizes q mQ i t rule: fill_table.induct)
  case (1 sizes q mQ i t)
  show ?case
  proof (cases "i \<le> mQ")
    case True
    from fill_step[OF "1.prems"(1,2) True "1.prems"(4)]
    obtain t1 where t1: "try_sizes q mQ i sizes t = Returns t1" "filled_upto sizes q mQ (i + 1) t1"
      by blast
    from "1.IH"[OF True t1(1) t1(2)] True "1.prems" t1(1)
    show ?thesis by (subst fill_table.simps) simp
  next
    case False
    then have "i = mQ + 1" using "1.prems" by simp
    then show ?thesis using "1.prems" by (subst fill_table.simps) simp
  qed
qed

lemma add_package_sizes:
  "map Size (add_package s ps) = (if s \<in> set (map Size ps) then map Size ps else map Size ps @ [s])"
  by (induction ps) auto

lemma add_package_counts:
  "\<forall>p\<in>set ps. 0 < Count p \<Longrightarrow> \<forall>p\<in>set (add_package s ps). 0 < Count p"
  by (induction ps) auto

lemma add_package_sum:
  "(\<Sum>p\<leftarrow>add_package s ps. Size p * Count p) = (\<Sum>p\<leftarrow>ps. Size p * Count p) + s"
  by (induction ps) (auto simp: algebra_simps)

lemma add_package_ok:
  assumes "breakdown_ok sizes j ps" "s \<in> set sizes"
  shows "breakdown_ok sizes (j + s) (add_package s ps)"
proof -
  have d: "distinct (map Size (add_package s ps))"
    using assms(1) unfolding add_package_sizes breakdown_ok_def by auto
  have "set (map Size (add_package s ps)) \<subseteq> set sizes"
    using assms unfolding add_package_sizes breakdown_ok_def by auto
  then have m: "\<forall>p\<in>set (add_package s ps). Size p \<in> set sizes" by auto
  have c: "\<forall>p\<in>set (add_package s ps). 0 < Count p"
    using assms(1) add_package_counts unfolding breakdown_ok_def by blast
  show ?thesis
    unfolding breakdown_ok_def using d m c assms(1) add_package_sum[of s ps]
    by (auto simp: breakdown_ok_def)
qed

lemma sizes_sum_nonneg:
  "\<forall>s\<in>set sizes. 0 < (s::int) \<Longrightarrow> set ps \<subseteq> set sizes \<Longrightarrow> 0 \<le> sum_list ps"
  by (induction ps) (auto intro: add_nonneg_nonneg less_imp_le)

lemma t_entry:
  "table_done sizes q mQ (dp, pcs) \<Longrightarrow> 1 \<le> j \<Longrightarrow> j \<le> mQ \<Longrightarrow> entry_ok sizes q mQ (dp, pcs) j"
  unfolding table_done_def filled_upto_def by auto

lemma t_zero:
  "table_done sizes q mQ (dp, pcs) \<Longrightarrow> dp ! 0 = 0 \<and> pcs ! 0 = []"
  unfolding table_done_def filled_upto_def by auto

lemma t_lower:
  assumes td: "table_done sizes q mQ (dp, pcs)"
  shows "0 \<le> j \<Longrightarrow> j \<le> mQ \<Longrightarrow> max 0 (j - q) \<le> dp ! nat j"
proof (induction j rule: measure_induct_rule[where f = nat])
  case (less j)
  have pos: "\<forall>s\<in>set sizes. 0 < s" and q0: "0 \<le> q" using td by (auto simp: table_done_def)
  show ?case
  proof (cases "j = 0")
    case True
    then show ?thesis using t_zero[OF td] q0 by simp
  next
    case False
    then have j1: "1 \<le> j" using less.prems by simp
    from t_entry[OF td j1 less.prems(2)]
    have "(dp ! nat j = mQ + 1) \<or>
         (\<exists>s\<in>set sizes. s \<le> j \<and> dp ! nat j = dp ! nat (j - s) + max 0 (j - q))"
      unfolding entry_ok_def by auto
    then show ?thesis
    proof
      assume "dp ! nat j = mQ + 1"
      then show ?thesis using less.prems q0 by simp
    next
      assume "\<exists>s\<in>set sizes. s \<le> j \<and> dp ! nat j = dp ! nat (j - s) + max 0 (j - q)"
      then obtain s where s: "s \<in> set sizes" "s \<le> j" "dp ! nat j = dp ! nat (j - s) + max 0 (j - q)"
        by blast
      have "0 < s" using pos s(1) by auto
      then have "max 0 (j - s - q) \<le> dp ! nat (j - s)"
        using less.IH[of "j - s"] s(2) less.prems by simp
      then show ?thesis using s(3) by simp
    qed
  qed
qed

lemma t_breakdown:
  assumes td: "table_done sizes q mQ (dp, pcs)"
  shows "0 \<le> j \<Longrightarrow> j \<le> mQ \<Longrightarrow> dp ! nat j \<noteq> mQ + 1 \<Longrightarrow> breakdown_ok sizes j (pcs ! nat j)"
proof (induction j rule: measure_induct_rule[where f = nat])
  case (less j)
  have pos: "\<forall>s\<in>set sizes. 0 < s" using td by (auto simp: table_done_def)
  show ?case
  proof (cases "j = 0")
    case True
    then show ?thesis using t_zero[OF td] by (simp add: breakdown_ok_def)
  next
    case False
    then have j1: "1 \<le> j" using less.prems by simp
    from t_entry[OF td j1 less.prems(2)] less.prems(3)
    obtain s where s: "s \<in> set sizes" "s \<le> j" "dp ! nat (j - s) \<noteq> mQ + 1"
        "pcs ! nat j = add_package s (pcs ! nat (j - s))"
      unfolding entry_ok_def by auto
    have "0 < s" using pos s(1) by auto
    then have "breakdown_ok sizes (j - s) (pcs ! nat (j - s))"
      using less.IH[of "j - s"] s less.prems by simp
    from add_package_ok[OF this s(1)] show ?thesis using s(4) by simp
  qed
qed

lemma t_reach:
  assumes td: "table_done sizes q mQ (dp, pcs)"
    and ps: "set ps \<subseteq> set sizes" "sum_list ps \<le> q" and s: "s \<in> set sizes"
    and prev: "dp ! nat (sum_list ps) = 0" and top: "sum_list ps + s \<le> mQ"
  shows "dp ! nat (sum_list ps + s) = max 0 (sum_list ps + s - q)"
proof -
  let ?j = "sum_list ps + s"
  have pos: "\<forall>s\<in>set sizes. 0 < s" and q0: "0 \<le> q" and qm: "q \<le> mQ"
    using td by (auto simp: table_done_def)
  have spos: "0 < s" using pos s by auto
  have nonneg: "0 \<le> sum_list ps" using sizes_sum_nonneg[OF pos ps(1)] .
  have j: "1 \<le> ?j" using spos nonneg by simp
  have "0 \<noteq> mQ + 1" using q0 qm by simp
  then have "dp ! nat ?j \<le> dp ! nat (?j - s) + max 0 (?j - q)"
    using t_entry[OF td j top] s prev nonneg unfolding entry_ok_def by auto
  then have "dp ! nat ?j \<le> max 0 (?j - q)" using prev by simp
  moreover have "max 0 (?j - q) \<le> dp ! nat ?j" using t_lower[OF td, of ?j] j top by simp
  ultimately show ?thesis by simp
qed

lemma t_exact:
  assumes td: "table_done sizes q mQ (dp, pcs)"
  shows "set ps \<subseteq> set sizes \<Longrightarrow> sum_list ps \<le> q \<Longrightarrow> dp ! nat (sum_list ps) = 0"
proof (induction ps)
  case Nil
  then show ?case using t_zero[OF td] by simp
next
  case (Cons s ps)
  have pos: "\<forall>s\<in>set sizes. 0 < s" and qm: "q \<le> mQ"
    using td by (auto simp: table_done_def)
  have spos: "0 < s" and s: "s \<in> set sizes" and sub: "set ps \<subseteq> set sizes"
    using pos Cons.prems by auto
  have le: "sum_list ps \<le> q" using Cons.prems(2) spos by simp
  have prev: "dp ! nat (sum_list ps) = 0" using Cons.IH[OF sub le] .
  have "dp ! nat (sum_list ps + s) = max 0 (sum_list ps + s - q)"
    using t_reach[OF td sub le s prev] Cons.prems(2) qm by simp
  then show ?case using Cons.prems(2) by (simp add: add.commute)
qed

lemma t_cross:
  assumes td: "table_done sizes q mQ (dp, pcs)"
    and "set ps \<subseteq> set sizes" "sum_list ps \<le> q" "s \<in> set sizes"
    "q \<le> sum_list ps + s" "sum_list ps + s \<le> mQ"
  shows "dp ! nat (sum_list ps + s) = sum_list ps + s - q"
  using t_reach[OF td assms(2,3,4) t_exact[OF td assms(2,3)] assms(6)] assms(5) by simp

lemma crossing_prefix:
  assumes "\<forall>s\<in>set ps. 0 < (s::int)" "q \<le> sum_list ps" "0 < q"
  shows "\<exists>ps' s. set ps' \<subseteq> set ps \<and> s \<in> set ps \<and> sum_list ps' < q \<and>
            q \<le> sum_list ps' + s \<and> sum_list ps' + s \<le> sum_list ps"
  using assms
proof (induction ps)
  case Nil
  then show ?case by simp
next
  case (Cons x xs)
  show ?case
  proof (cases "q \<le> sum_list xs")
    case True
    from Cons.IH[OF _ True Cons.prems(3)] Cons.prems(1)
    obtain ps' s where "set ps' \<subseteq> set xs" "s \<in> set xs" "sum_list ps' < q"
        "q \<le> sum_list ps' + s" "sum_list ps' + s \<le> sum_list xs"
      by auto
    moreover have "0 < x" using Cons.prems(1) by simp
    ultimately show ?thesis
      by (intro exI[of _ ps'] exI[of _ s]) auto
  next
    case False
    then show ?thesis using Cons.prems
      by (intro exI[of _ xs] exI[of _ x]) auto
  qed
qed

lemma scan_keep:
  assumes "best_so_far dp q i (bq, bo)" "bo \<le> dp ! nat i"
  shows "best_so_far dp q (i + 1) (bq, bo)"
proof -
  have "\<And>j. q \<le> j \<Longrightarrow> j < i + 1 \<Longrightarrow> j = i \<or> j < i" by linarith
  then have "\<And>j. q \<le> j \<Longrightarrow> j < i + 1 \<Longrightarrow> bo \<le> dp ! nat j"
    using assms unfolding best_so_far_def by (metis fst_conv snd_conv)
  then show ?thesis using assms unfolding best_so_far_def by auto
qed

lemma scan_take:
  assumes "best_so_far dp q i (bq, bo)" "dp ! nat i \<le> bo"
  shows "best_so_far dp q (i + 1) (i, dp ! nat i)"
proof -
  have "\<And>j. q \<le> j \<Longrightarrow> j < i + 1 \<Longrightarrow> j = i \<or> j < i" by linarith
  then have "\<And>j. q \<le> j \<Longrightarrow> j < i + 1 \<Longrightarrow> dp ! nat i \<le> dp ! nat j"
    using assms unfolding best_so_far_def by (metis fst_conv snd_conv order_refl order_trans)
  then show ?thesis using assms unfolding best_so_far_def by auto
qed

lemma scan_best_min:
  assumes "best_so_far dp q i (bq, bo)" "i \<le> mQ + 1" "0 \<le> q"
    "length dp = nat (mQ + 1)" "length pcs = nat (mQ + 1)"
  shows "\<exists>best. scan_best dp pcs mQ i bq bo = Returns best \<and> best_so_far dp q (mQ + 1) best"
  using assms
proof (induction dp pcs mQ i bq bo rule: scan_best.induct)
  case (1 dp pcs mQ i bq bo)
  show ?case
  proof (cases "i \<le> mQ")
    case False
    then have "i = mQ + 1" using "1.prems" by simp
    then show ?thesis using "1.prems" by (subst scan_best.simps) simp
  next
    case True
    have b: "q \<le> bq" "bq < i" using "1.prems"(1) by (auto simp: best_so_far_def)
    have r: "in_range dp i" "in_range pcs i" "in_range pcs bq"
      using True b "1.prems"(3,4,5) by (auto simp: in_range_def)
    then have nr: "\<not> \<not> in_range dp i" "\<not> \<not> (in_range pcs i \<and> in_range pcs bq)" by simp_all
    note rest = True "1.prems"(3,4,5)
    consider (less) "dp ! nat i < bo"
      | (tie_fewer) "\<not> dp ! nat i < bo" "dp ! nat i = bo"
          "length (pcs ! nat i) < length (pcs ! nat bq)"
      | (tie_keep) "\<not> dp ! nat i < bo" "dp ! nat i = bo"
          "\<not> length (pcs ! nat i) < length (pcs ! nat bq)"
      | (more) "\<not> dp ! nat i < bo" "dp ! nat i \<noteq> bo"
      by blast
    then show ?thesis
    proof cases
      case less
      have e: "scan_best dp pcs mQ i bq bo = scan_best dp pcs mQ (i + 1) i (dp ! nat i)"
        using True r less by (subst scan_best.simps) simp
      have "dp ! nat i \<le> bo" using less by simp
      from "1.IH"(1)[OF True nr(1) less scan_take[OF "1.prems"(1) this]] rest
      show ?thesis unfolding e by simp
    next
      case tie_fewer
      have e: "scan_best dp pcs mQ i bq bo = scan_best dp pcs mQ (i + 1) i (dp ! nat i)"
        using True r tie_fewer by (subst scan_best.simps) simp
      have "dp ! nat i \<le> bo" using tie_fewer by simp
      from "1.IH"(2)[OF True nr(1) tie_fewer(1,2) nr(2) tie_fewer(3)
          scan_take[OF "1.prems"(1) this]] rest
      show ?thesis unfolding e by simp
    next
      case tie_keep
      have e: "scan_best dp pcs mQ i bq bo = scan_best dp pcs mQ (i + 1) bq bo"
        using True r tie_keep by (subst scan_best.simps) simp
      have "bo \<le> dp ! nat i" using tie_keep by simp
      from "1.IH"(3)[OF True nr(1) tie_keep(1,2) nr(2) tie_keep(3)
          scan_keep[OF "1.prems"(1) this]] rest
      show ?thesis unfolding e by simp
    next
      case more
      have e: "scan_best dp pcs mQ i bq bo = scan_best dp pcs mQ (i + 1) bq bo"
        using True r more by (subst scan_best.simps) simp
      have "bo \<le> dp ! nat i" using more by simp
      from "1.IH"(4)[OF True nr(1) more scan_keep[OF "1.prems"(1) this]] rest
      show ?thesis unfolding e by simp
    qed
  qed
qed

lemma sort_descending_head:
  assumes "xs \<noteq> []"
  shows "sort_descending xs ! 0 \<in> set xs \<and> (\<forall>x\<in>set xs. x \<le> sort_descending xs ! 0)"
proof -
  have ne: "sort xs \<noteq> []" using assms by (metis length_sort length_0_conv)
  have h: "sort_descending xs ! 0 = last (sort xs)"
    using ne unfolding sort_descending_def by (simp add: hd_rev flip: hd_conv_nth)
  have "last (sort xs) \<in> set (sort xs)" using ne last_in_set by blast
  then have m: "last (sort xs) \<in> set xs" by simp
  have "x \<le> last (sort xs)" if "x \<in> set xs" for x
  proof -
    from that have "x \<in> set (sort xs)" by simp
    then obtain k where k: "k < length (sort xs)" "sort xs ! k = x"
      unfolding in_set_conv_nth by blast
    have "sort xs ! k \<le> sort xs ! (length (sort xs) - 1)"
      using k(1) by (intro sorted_nth_mono) auto
    then show ?thesis using k(2) ne by (simp add: last_conv_nth)
  qed
  then show ?thesis using h m by simp
qed

lemma sort_descending_unique:
  assumes "sorted (rev ys)" "mset ys = mset xs"
  shows "ys = sort_descending xs"
proof -
  have "sort xs = rev ys" using assms by (intro properties_for_sort) simp_all
  then show ?thesis by (simp add: sort_descending_def)
qed

lemma NewOptimizer_Returns:
  assumes "NewOptimizer xs = Returns opt"
  shows "packageSizes opt = sort_descending xs \<and> xs \<noteq> [] \<and> (\<forall>x\<in>set xs. 0 < x) \<and>
    set (packageSizes opt) = set xs"
  using assms
  by (auto simp: NewOptimizer_def list_ex_iff sort_descending_def not_le split: if_splits)

lemma table_crossing:
  assumes td: "table_done sizes q mQ (dp, pcs)" and q: "0 < q"
    and M: "\<forall>s\<in>set sizes. s \<le> M" and mQ: "mQ = q + M"
    and ps: "set ps \<subseteq> set sizes" "q \<le> sum_list ps"
  shows "\<exists>j. q \<le> j \<and> j \<le> sum_list ps \<and> j \<le> q + M - 1 \<and> dp ! nat j = j - q"
proof -
  have pos: "\<forall>s\<in>set sizes. 0 < s" using td by (auto simp: table_done_def)
  then have "\<forall>s\<in>set ps. 0 < s" using ps(1) by auto
  from crossing_prefix[OF this ps(2) q]
  obtain ps' s where c: "set ps' \<subseteq> set ps" "s \<in> set ps" "sum_list ps' < q"
      "q \<le> sum_list ps' + s" "sum_list ps' + s \<le> sum_list ps"
    by blast
  have sub: "set ps' \<subseteq> set sizes" and s: "s \<in> set sizes" using c ps(1) by auto
  have sM: "s \<le> M" using M s by auto
  have top: "sum_list ps' + s \<le> mQ" using c(3) sM mQ by simp
  have "dp ! nat (sum_list ps' + s) = sum_list ps' + s - q"
    using t_cross[OF td sub _ s c(4) top] c(3) by simp
  then show ?thesis using c sM by (intro exI[of _ "sum_list ps' + s"]) auto
qed

lemma catalog_facts:
  assumes new: "NewOptimizer xs = Returns opt"
  shows "(\<forall>s\<in>set (packageSizes opt). 0 < s) \<and>
         Max (set (packageSizes opt)) \<in> set (packageSizes opt) \<and>
         (\<forall>s\<in>set (packageSizes opt). s \<le> Max (set (packageSizes opt))) \<and>
         0 < Max (set (packageSizes opt)) \<and>
         (\<exists>rest. packageSizes opt = Max (set (packageSizes opt)) # rest) \<and>
         (list_all int64 xs \<longrightarrow> int64 (Max (set (packageSizes opt))))"
proof -
  let ?sizes = "packageSizes opt"
  let ?M = "?sizes ! 0"
  note n = NewOptimizer_Returns[OF new]
  have pos: "\<forall>s\<in>set ?sizes. 0 < s" using n by auto
  have Min: "?M \<in> set ?sizes" and Mmax: "\<forall>s\<in>set ?sizes. s \<le> ?M"
    using sort_descending_head[of xs] n by auto
  have MMax: "Max (set ?sizes) = ?M" using Min Mmax by (intro Max_eqI) auto
  have "?sizes \<noteq> []" using Min by auto
  then have hd: "\<exists>rest. ?sizes = ?M # rest" by (cases ?sizes) auto
  have "list_all int64 xs \<longrightarrow> int64 ?M" using Min n by (auto simp: list_all_iff)
  then show ?thesis unfolding MMax using pos Min Mmax hd by blast
qed

text \<open>
  The solver on a table that was allocated: \<open>mQ\<close> is \<open>quantity + M\<close>, not wrapped.
\<close>

lemma solver_on_table:
  assumes pos: "\<forall>s\<in>set sizes. 0 < s"
    and Min: "M \<in> set sizes" and Mmax: "\<forall>s\<in>set sizes. s \<le> M"
    and q: "0 < q"
    and filled: "filled_upto sizes q (q + M) 1 t0"
  shows "\<exists>dp pcs b bo.
           fill_table sizes q (q + M) 1 t0 = Returns (dp, pcs) \<and> in_range dp q \<and>
           scan_best dp pcs (q + M) (q + 1) q (dp ! nat q) = Returns (b, bo) \<and>
           in_range pcs b \<and> q \<le> b \<and> b - q \<le> M - 1 \<and>
           breakdown_ok sizes b (pcs ! nat b) \<and>
           (\<forall>ps. set ps \<subseteq> set sizes \<and> q \<le> sum_list ps \<longrightarrow> b \<le> sum_list ps)"
proof -
  let ?mQ = "q + M"
  have Mpos: "0 < M" using pos Min by blast
  have mQ0: "(1::int) \<le> ?mQ + 1" using q Mpos by simp
  from fill_table_filled[OF filled order_refl mQ0 pos]
  obtain t where tf: "fill_table sizes q ?mQ 1 t0 = Returns t"
      "filled_upto sizes q ?mQ (?mQ + 1) t" by blast
  obtain dp pcs where t: "t = (dp, pcs)" by (cases t)
  have td: "table_done sizes q ?mQ (dp, pcs)"
    unfolding table_done_def using tf(2) t pos q Mpos by auto
  have len: "length dp = nat (?mQ + 1)" "length pcs = nat (?mQ + 1)"
    using tf(2) unfolding t filled_upto_def by auto
  have start: "best_so_far dp q (q + 1) (q, dp ! nat q)"
  proof -
    have "dp ! nat q \<le> dp ! nat j" if "q \<le> j \<and> j < q + 1" for j
    proof -
      from that have "j = q" by linarith
      then show ?thesis by simp
    qed
    then show ?thesis unfolding best_so_far_def by simp
  qed
  have q0: "0 \<le> q" "q + 1 \<le> ?mQ + 1" using q Mpos by simp_all
  from scan_best_min[OF start q0(2) q0(1) len]
  obtain b bo where sb: "scan_best dp pcs ?mQ (q + 1) q (dp ! nat q) = Returns (b, bo)"
      and bsf: "best_so_far dp q (?mQ + 1) (b, bo)"
    by (metis prod.exhaust)
  have best: "q \<le> b" "b \<le> ?mQ" "bo = dp ! nat b"
      "\<And>j. q \<le> j \<Longrightarrow> j \<le> ?mQ \<Longrightarrow> dp ! nat b \<le> dp ! nat j"
    using bsf unfolding best_so_far_def by auto
  have rq: "in_range dp q" "in_range pcs b"
    using q Mpos best(1,2) len by (auto simp: in_range_def)
  have low: "b - q \<le> dp ! nat b"
    using t_lower[OF td, of b] best(1,2) q by simp
  have cross: "b \<le> sum_list ps \<and> b \<le> q + M - 1 \<and> dp ! nat b \<le> M - 1"
    if "set ps \<subseteq> set sizes" "q \<le> sum_list ps" for ps
  proof -
    from table_crossing[OF td q Mmax refl that]
    obtain j where j: "q \<le> j" "j \<le> sum_list ps" "j \<le> q + M - 1" "dp ! nat j = j - q"
      by blast
    have "dp ! nat b \<le> j - q" using best(4)[of j] j by simp
    then show ?thesis using low j by simp
  qed
  have "sum_list (replicate (nat q) M) = q * M" using q by (simp add: sum_list_replicate)
  moreover have "q * 1 \<le> q * M" using q Mpos by (intro mult_left_mono) auto
  ultimately have "q \<le> sum_list (replicate (nat q) M)" by simp
  moreover have "set (replicate (nat q) M) \<subseteq> set sizes" using Min by auto
  ultimately have ex: "b \<le> q + M - 1" "dp ! nat b \<le> M - 1"
    using cross[of "replicate (nat q) M"] by auto
  have "dp ! nat b \<noteq> ?mQ + 1" using ex(2) q by simp
  from t_breakdown[OF td _ best(2) this] best(1) q
  have bd: "breakdown_ok sizes b (pcs ! nat b)" by simp
  show ?thesis
    using tf(1) t rq sb best(1) ex(1) bd cross by auto
qed

lemma findOptimalSolution_fits:
  assumes new: "NewOptimizer xs = Returns opt" and q: "0 < q"
    and fit: "tables_fit maxAlloc (q + Max (set (packageSizes opt)) + 1)"
  shows "\<exists>sol. findOptimalSolution maxAlloc opt q = Returns sol \<and>
           solution_ok (packageSizes opt) q sol"
proof -
  let ?sizes = "packageSizes opt"
  let ?M = "Max (set ?sizes)"
  let ?mQ = "q + ?M"
  note c = catalog_facts[OF new]
  obtain rest where sz: "?sizes = ?M # rest" using c by blast
  have Mpos: "0 < ?M" using c by blast
  have "int64 (?mQ + 1)" using fit q Mpos by (intro tables_fit_int64) simp_all
  then have "int64 ?mQ" using q Mpos by (simp add: int64_def)
  then have w: "wrap64 ?mQ = ?mQ" by (rule wrap64_id)
  have mQ0: "0 \<le> ?mQ" using q Mpos by simp
  from init_table_fits[OF mQ0 fit]
  obtain t0 where t0: "init_table maxAlloc ?mQ = Returns t0" by blast
  from init_table_Returns[OF t0 \<open>int64 ?mQ\<close>, of ?sizes q]
  have f0: "filled_upto ?sizes q ?mQ 1 t0" by simp
  from solver_on_table[OF _ _ _ q f0] c
  obtain dp pcs b bo where run:
    "fill_table ?sizes q ?mQ 1 t0 = Returns (dp, pcs)" "in_range dp q"
    "scan_best dp pcs ?mQ (q + 1) q (dp ! nat q) = Returns (b, bo)"
    "in_range pcs b" "q \<le> b" "b - q \<le> ?M - 1"
    "breakdown_ok ?sizes b (pcs ! nat b)"
    "\<forall>ps. set ps \<subseteq> set ?sizes \<and> q \<le> sum_list ps \<longrightarrow> b \<le> sum_list ps"
    by blast
  have sol: "findOptimalSolution maxAlloc opt q =
      Returns \<lparr>totalDelivered = b, packages = pcs ! nat b\<rparr>"
    unfolding findOptimalSolution_def
    by (subst sz) (simp add: Let_def and_then_def w t0 run(1,2,3,4))
  show ?thesis
    unfolding sol solution_ok_def using run(5,6,7,8) by simp
qed

lemma findOptimalSolution_Returns:
  assumes new: "NewOptimizer xs = Returns opt" and i64: "list_all int64 xs" and q: "0 < q"
    and ret: "findOptimalSolution maxAlloc opt q = Returns sol"
  shows "tables_fit maxAlloc (q + Max (set (packageSizes opt)) + 1)"
proof -
  let ?sizes = "packageSizes opt"
  let ?M = "Max (set ?sizes)"
  let ?r = "wrap64 (q + ?M)"
  note c = catalog_facts[OF new]
  obtain rest where sz: "?sizes = ?M # rest" using c by blast
  have Mpos: "0 < ?M" and M64: "int64 ?M" and pos: "\<forall>s\<in>set ?sizes. 0 < s"
    using c i64 by blast+
  have r64: "int64 ?r" by (rule wrap64_int64)
  have chain: "findOptimalSolution maxAlloc opt q =
      and_then (init_table maxAlloc ?r) (\<lambda>t0.
        and_then (fill_table ?sizes q ?r 1 t0) (\<lambda>(dp, packageCounts).
          if \<not> in_range dp q then Panics ''index out of range''
          else and_then (scan_best dp packageCounts ?r (q + 1) q (dp ! nat q))
                 (\<lambda>(bestQuantity, bestOverDelivery).
                    if \<not> in_range packageCounts bestQuantity then Panics ''index out of range''
                    else Returns \<lparr>totalDelivered = bestQuantity,
                                  packages = packageCounts ! nat bestQuantity\<rparr>)))"
    unfolding findOptimalSolution_def by (subst sz) (simp add: Let_def)
  obtain t0 where t0: "init_table maxAlloc ?r = Returns t0"
    using ret unfolding chain by (cases "init_table maxAlloc ?r") (auto simp: and_then_def)
  from init_table_Returns[OF t0 r64, of ?sizes q]
  have r0: "0 \<le> ?r" and fitr: "tables_fit maxAlloc (?r + 1)"
    and f0: "filled_upto ?sizes q ?r 1 t0" by simp_all
  have one: "(1::int) \<le> ?r + 1" using r0 by simp
  from fill_table_filled[OF f0 order_refl one pos]
  obtain t where tf: "fill_table ?sizes q ?r 1 t0 = Returns t"
      "filled_upto ?sizes q ?r (?r + 1) t" by blast
  obtain dp pcs where t: "t = (dp, pcs)" by (cases t)
  have len: "length dp = nat (?r + 1)" using tf(2) unfolding t filled_upto_def by auto
  have "in_range dp q"
    using ret tf(1) unfolding chain t0 t
    by (auto simp: and_then_def split: if_splits)
  then have qr: "q \<le> ?r" using len r0 by (auto simp: in_range_def)
  have "?r = q + ?M"
  proof (cases "q + ?M < 2 ^ 63")
    case True
    then have "int64 (q + ?M)" using q Mpos by (simp add: int64_def)
    then show ?thesis by (rule wrap64_id)
  next
    case False
    have "q < 2 ^ 63" using qr r64 by (simp add: int64_def)
    then have "q + ?M < 2 ^ 64 + 2 ^ 63" using M64 by (simp add: int64_def)
    from wrap64_over[OF _ this] False have "?r = q + ?M - 2 ^ 64" by simp
    then have "?r < 0" using \<open>q < 2 ^ 63\<close> M64 by (simp add: int64_def)
    then show ?thesis using r0 by simp
  qed
  then show ?thesis using fitr by simp
qed

lemma findOptimalSolution_unfit:
  assumes new: "NewOptimizer xs = Returns opt" and i64: "list_all int64 xs"
    and q: "0 < q" "int64 q"
    and unfit: "\<not> tables_fit maxAlloc (q + Max (set (packageSizes opt)) + 1)"
  shows "findOptimalSolution maxAlloc opt q = Panics ''makeslice: len out of range''"
proof -
  let ?sizes = "packageSizes opt"
  let ?M = "Max (set ?sizes)"
  let ?r = "wrap64 (q + ?M)"
  note c = catalog_facts[OF new]
  obtain rest where sz: "?sizes = ?M # rest" using c by blast
  have Mpos: "0 < ?M" and M64: "int64 ?M" using c i64 by blast+
  have r64: "int64 ?r" by (rule wrap64_int64)
  have bad: "?r \<noteq> - 1 \<and> \<not> (0 \<le> ?r \<and> tables_fit maxAlloc (?r + 1))"
  proof (cases "q + ?M < 2 ^ 63")
    case True
    then have "int64 (q + ?M)" using q Mpos by (simp add: int64_def)
    then have "?r = q + ?M" by (rule wrap64_id)
    then show ?thesis using unfit q Mpos by simp
  next
    case False
    have "q + ?M < 2 ^ 64 + 2 ^ 63" using q(2) M64 by (simp add: int64_def)
    from wrap64_over[OF _ this] False have "?r = q + ?M - 2 ^ 64" by simp
    then have "?r < - 1" using q(2) M64 by (simp add: int64_def)
    then show ?thesis by simp
  qed
  from init_table_unfit[OF r64] bad
  have "init_table maxAlloc ?r = Panics ''makeslice: len out of range''" by blast
  then show ?thesis
    unfolding findOptimalSolution_def by (subst sz) (simp add: Let_def and_then_def)
qed

lemma findOptimalSolution_ok:
  assumes new: "NewOptimizer xs = Returns opt" and i64: "list_all int64 xs" and q: "0 < q"
    and ret: "findOptimalSolution maxAlloc opt q = Returns sol"
  shows "solution_ok (packageSizes opt) q sol"
  using findOptimalSolution_fits[OF new q findOptimalSolution_Returns[OF new i64 q ret]] ret
  by simp

lemma breakdown_achievable:
  assumes "breakdown_ok sizes j bs"
  shows "\<exists>ps. set ps \<subseteq> set sizes \<and> sum_list ps = j"
proof -
  have "\<exists>ps. set ps \<subseteq> set sizes \<and> sum_list ps = (\<Sum>p\<leftarrow>bs. Size p * Count p)"
    if "\<forall>p\<in>set bs. Size p \<in> set sizes \<and> 0 < Count p"
    using that
  proof (induction bs)
    case Nil
    show ?case by (intro exI[of _ "[]"]) simp
  next
    case (Cons p bs)
    then obtain ps where ps: "set ps \<subseteq> set sizes" "sum_list ps = (\<Sum>p\<leftarrow>bs. Size p * Count p)"
      by auto
    let ?h = "replicate (nat (Count p)) (Size p)"
    have "sum_list ?h = Count p * Size p" using Cons.prems by (simp add: sum_list_replicate)
    moreover have "set ?h \<subseteq> set sizes" using Cons.prems by auto
    ultimately show ?case
      using ps by (intro exI[of _ "?h @ ps"]) (simp add: mult.commute)
  qed
  then show ?thesis using assms by (auto simp: breakdown_ok_def)
qed

lemma digit_char_inj:
  assumes "a < 10" "b < 10" "char_of (48 + a) = (char_of (48 + b) :: char)"
  shows "a = (b::nat)"
proof -
  have "(48 + a) mod 256 = (48 + b) mod 256"
    using assms(3) by (simp add: char_of_eq_iff take_bit_eq_mod)
  then show ?thesis using assms(1,2) by simp
qed

lemma digits_nonempty: "digits n \<noteq> []"
  by (subst digits.simps) simp

lemma digits_chars: "c \<in> set (digits n) \<Longrightarrow> \<exists>k::nat. k < 10 \<and> c = char_of (48 + k)"
proof (induction n rule: digits.induct)
  case (1 n)
  show ?case
  proof (cases "n < 10")
    case True
    then show ?thesis using "1.prems" by (subst (asm) digits.simps) auto
  next
    case False
    have "c \<in> set (digits (n div 10)) \<or> c = char_of (48 + n mod 10)"
      using "1.prems" False by (subst (asm) digits.simps) auto
    then show ?thesis
    proof
      assume "c \<in> set (digits (n div 10))"
      then show ?thesis using "1.IH"[OF False] by simp
    next
      assume "c = char_of (48 + n mod 10)"
      then show ?thesis by (intro exI[of _ "n mod 10"]) simp
    qed
  qed
qed

lemma digits_no_minus: "CHR ''-'' \<notin> set (digits n)"
proof
  assume "CHR ''-'' \<in> set (digits n)"
  then obtain k :: nat where k: "k < 10" "CHR ''-'' = (char_of (48 + k) :: char)"
    using digits_chars by blast
  have "of_char (CHR ''-'') = (of_char (char_of (48 + k) :: char) :: nat)" using k(2) by simp
  then show False using k(1) by simp
qed

lemma digits_inj: "digits n = digits m \<Longrightarrow> n = m"
proof (induction n arbitrary: m rule: digits.induct)
  case (1 n)
  show ?case
  proof (cases "n < 10")
    case n: True
    show ?thesis
    proof (cases "m < 10")
      case True
      then show ?thesis using "1.prems" n
        by (subst (asm) digits.simps, subst (asm) (2) digits.simps) (auto dest: digit_char_inj)
    next
      case False
      have "digits m = digits (m div 10) @ [char_of (48 + m mod 10)]"
        using False by (subst digits.simps) simp
      moreover have "digits n = [char_of (48 + n)]" using n by (subst digits.simps) simp
      ultimately show ?thesis using "1.prems" digits_nonempty[of "m div 10"] by simp
    qed
  next
    case n: False
    have dn: "digits n = digits (n div 10) @ [char_of (48 + n mod 10)]"
      using n by (subst digits.simps) simp
    show ?thesis
    proof (cases "m < 10")
      case True
      then have "digits m = [char_of (48 + m)]" by (subst digits.simps) simp
      then show ?thesis using "1.prems" dn digits_nonempty[of "n div 10"] by simp
    next
      case False
      have "digits m = digits (m div 10) @ [char_of (48 + m mod 10)]"
        using False by (subst digits.simps) simp
      then have e: "digits (n div 10) = digits (m div 10)"
          "char_of (48 + n mod 10) = (char_of (48 + m mod 10) :: char)"
        using "1.prems" dn by simp_all
      have "n div 10 = m div 10" using "1.IH"[OF n e(1)] .
      moreover have "n mod 10 = m mod 10" using digit_char_inj[OF _ _ e(2)] by simp
      ultimately show ?thesis by (metis div_mult_mod_eq)
    qed
  qed
qed

lemma fmt_d_inj: "fmt_d a = fmt_d b \<Longrightarrow> a = b"
proof -
  assume e: "fmt_d a = fmt_d b"
  have neg: "\<And>x y. x < 0 \<Longrightarrow> \<not> y < 0 \<Longrightarrow> fmt_d x \<noteq> fmt_d y"
  proof
    fix x y :: int assume "x < 0" "\<not> y < 0" "fmt_d x = fmt_d y"
    then have "CHR ''-'' # digits (nat (- x)) = digits (nat y)" by (simp add: fmt_d_def)
    then have "CHR ''-'' \<in> set (digits (nat y))" by (metis list.set_intros(1))
    then show False using digits_no_minus by simp
  qed
  consider "a < 0" "b < 0" | "a < 0" "\<not> b < 0" | "\<not> a < 0" "b < 0" | "\<not> a < 0" "\<not> b < 0"
    by blast
  then show "a = b"
  proof cases
    case 1
    then have "nat (- a) = nat (- b)" using e digits_inj by (simp add: fmt_d_def)
    then show ?thesis using 1 by simp
  next
    case 2
    then show ?thesis using neg e by blast
  next
    case 3
    then show ?thesis using neg[of b a] e by simp
  next
    case 4
    then have "nat a = nat b" using e digits_inj by (simp add: fmt_d_def)
    then show ?thesis using 4 by simp
  qed
qed

lemma entries_distinct: "distinct (map Size ps) \<Longrightarrow> distinct (map fst (entries ps))"
proof -
  assume d: "distinct (map Size ps)"
  have e: "map fst (entries ps) = map fmt_d (map Size ps)" by (simp add: entries_def)
  have "inj_on fmt_d (set (map Size ps))" using fmt_d_inj by (auto intro: inj_onI)
  then have "distinct (map fmt_d (map Size ps))" using d by (subst distinct_map) blast
  then show ?thesis unfolding e .
qed

lemma fold_put_package:
  assumes "distinct (map Size ps)" "\<forall>p\<in>set ps. 0 < Count p"
  shows "fold put_package ps m = m ++ map_of (entries ps)"
  using assms
proof (induction ps arbitrary: m)
  case Nil
  then show ?case by (simp add: entries_def)
next
  case (Cons p ps)
  have k: "fmt_d (Size p) \<notin> dom (map_of (entries ps))"
  proof
    assume "fmt_d (Size p) \<in> dom (map_of (entries ps))"
    then have "fmt_d (Size p) \<in> fst ` set (entries ps)" by (simp add: dom_map_of_conv_image_fst)
    then obtain p' where p': "p' \<in> set ps" "fmt_d (Size p') = fmt_d (Size p)"
      by (auto simp: entries_def)
    then have "Size p' = Size p" using fmt_d_inj by blast
    then show False using Cons.prems(1) p'(1) by (auto simp: image_iff)
  qed
  have "fold put_package (p # ps) m = fold put_package ps (m(fmt_d (Size p) \<mapsto> Count p))"
    using Cons.prems(2) by (simp add: put_package_def)
  also have "\<dots> = m(fmt_d (Size p) \<mapsto> Count p) ++ map_of (entries ps)"
    using Cons.IH Cons.prems by simp
  also have "\<dots> = m ++ map_of (entries (p # ps))"
    using k by (auto simp: entries_def map_add_def fun_eq_iff split: option.splits)
  finally show ?case .
qed

lemma breakdown_packages:
  assumes "breakdown_ok sizes j ps"
  defines "m \<equiv> fold put_package ps Map.empty"
  shows "j = (\<Sum>s\<in>set sizes. s * count_for m s)"
    and "dom m \<subseteq> fmt_d ` set sizes"
    and "\<And>k c. m k = Some c \<Longrightarrow> 0 < c"
    and "j \<noteq> 0 \<Longrightarrow> m \<noteq> Map.empty"
proof -
  have d: "distinct (map Size ps)" and c: "\<forall>p\<in>set ps. 0 < Count p"
    and sub: "Size ` set ps \<subseteq> set sizes"
    and sum: "(\<Sum>p\<leftarrow>ps. Size p * Count p) = j"
    using assms(1) unfolding breakdown_ok_def by auto
  have m: "m = map_of (entries ps)" unfolding m_def fold_put_package[OF d c] by simp
  have look: "(m k = Some v) = ((k, v) \<in> set (entries ps))" for k v
    unfolding m using entries_distinct[OF d] by simp
  show "dom m \<subseteq> fmt_d ` set sizes"
    unfolding m dom_map_of_conv_image_fst using sub by (auto simp: entries_def)
  show "\<And>k c. m k = Some c \<Longrightarrow> 0 < c"
    using look c by (auto simp: entries_def)
  have at: "count_for m (Size p) = Count p" if "p \<in> set ps" for p
  proof -
    have "(fmt_d (Size p), Count p) \<in> set (entries ps)" using that by (auto simp: entries_def)
    then have "m (fmt_d (Size p)) = Some (Count p)" using look by simp
    then show ?thesis by (simp add: count_for_def)
  qed
  have out: "count_for m s = 0" if "s \<notin> Size ` set ps" for s
  proof -
    have "m (fmt_d s) = None"
    proof (rule ccontr)
      assume "m (fmt_d s) \<noteq> None"
      then obtain v where "(fmt_d s, v) \<in> set (entries ps)" using look by auto
      then obtain p where p: "p \<in> set ps" "fmt_d (Size p) = fmt_d s" by (auto simp: entries_def)
      then have "Size p = s" using fmt_d_inj by blast
      then show False using that p(1) by auto
    qed
    then show ?thesis by (simp add: count_for_def)
  qed
  have "(\<Sum>p\<leftarrow>ps. Size p * Count p) = (\<Sum>p\<leftarrow>ps. Size p * count_for m (Size p))"
    using at by (intro arg_cong[where f = sum_list] map_cong) auto
  also have "\<dots> = sum_list (map (\<lambda>s. s * count_for m s) (map Size ps))"
    by (simp add: comp_def)
  also have "\<dots> = (\<Sum>s\<in>set (map Size ps). s * count_for m s)"
    using d by (rule sum_list_distinct_conv_sum_set)
  also have "\<dots> = (\<Sum>s\<in>set sizes. s * count_for m s)"
    using sub out by (intro sum.mono_neutral_left) auto
  finally show "j = (\<Sum>s\<in>set sizes. s * count_for m s)" using sum by simp
  show "j \<noteq> 0 \<Longrightarrow> m \<noteq> Map.empty"
  proof
    assume "j \<noteq> 0" "m = Map.empty"
    then have "ps \<noteq> []" using sum by auto
    then obtain p where "p \<in> set ps" by (cases ps) auto
    then have "(fmt_d (Size p), Count p) \<in> set (entries ps)" by (auto simp: entries_def)
    then have "m (fmt_d (Size p)) = Some (Count p)" using look by simp
    then show False using \<open>m = Map.empty\<close> by simp
  qed
qed


section \<open>\<open>Optimize\<close> on a constructed optimizer\<close>

lemma Optimize_at_zero:
  "Optimize maxAlloc opt 0 =
     Returns (Some \<lparr>Requested = 0, TotalDelivered = 0, OverDelivery = 0,
                    Packages = Map.empty\<rparr>, None)"
  by (simp add: Optimize_def)

lemma Optimize_at_positive:
  "0 < q \<Longrightarrow> Optimize maxAlloc opt q =
     and_then (findOptimalSolution maxAlloc opt q) (\<lambda>sol.
       Returns (Some \<lparr>Requested = q,
                      TotalDelivered = totalDelivered sol,
                      OverDelivery = totalDelivered sol - q,
                      Packages = fold put_package (packages sol) Map.empty\<rparr>, None))"
  by (simp add: Optimize_def)

lemma Optimize_fits:
  assumes "NewOptimizer xs = Returns opt" and "0 < q"
    and "tables_fit maxAlloc (q + Max (set (packageSizes opt)) + 1)"
  shows "\<exists>sol. solution_ok (packageSizes opt) q sol \<and>
           Optimize maxAlloc opt q =
             Returns (Some \<lparr>Requested = q,
                            TotalDelivered = totalDelivered sol,
                            OverDelivery = totalDelivered sol - q,
                            Packages = fold put_package (packages sol) Map.empty\<rparr>, None)"
proof -
  from findOptimalSolution_fits[OF assms]
  obtain sol where "findOptimalSolution maxAlloc opt q = Returns sol"
    "solution_ok (packageSizes opt) q sol" by blast
  then show ?thesis
    unfolding Optimize_at_positive[OF assms(2)] by (auto simp: and_then_def)
qed

lemma Optimize_Returns:
  assumes "NewOptimizer xs = Returns opt" and "list_all int64 xs" and "0 < q"
    and "Optimize maxAlloc opt q = Returns (res, err)"
  shows "\<exists>sol. solution_ok (packageSizes opt) q sol \<and> err = None \<and>
           res = Some \<lparr>Requested = q,
                       TotalDelivered = totalDelivered sol,
                       OverDelivery = totalDelivered sol - q,
                       Packages = fold put_package (packages sol) Map.empty\<rparr>"
proof -
  from assms(4) obtain sol where sol: "findOptimalSolution maxAlloc opt q = Returns sol"
    unfolding Optimize_at_positive[OF assms(3)]
    by (cases "findOptimalSolution maxAlloc opt q") (auto simp: and_then_def)
  from findOptimalSolution_ok[OF assms(1,2,3) sol]
  have "solution_ok (packageSizes opt) q sol" .
  then show ?thesis
    using assms(4) sol unfolding Optimize_at_positive[OF assms(3)]
    by (auto simp: and_then_def)
qed

lemma Optimize_unfit:
  assumes "NewOptimizer xs = Returns opt" and "list_all int64 xs" and "0 < q" "int64 q"
    and "\<not> tables_fit maxAlloc (q + Max (set (packageSizes opt)) + 1)"
  shows "Optimize maxAlloc opt q = Panics ''makeslice: len out of range''"
  unfolding Optimize_at_positive[OF assms(3)] findOptimalSolution_unfit[OF assms]
  by (simp add: and_then_def)

lemma Optimize_returns:
  assumes "NewOptimizer xs = Returns opt"
    and "q \<le> 0 \<or> tables_fit maxAlloc (q + Max (set (packageSizes opt)) + 1)"
  shows "\<exists>res. Optimize maxAlloc opt q = Returns res"
proof -
  consider "q < 0" | "q = 0" | "0 < q" by linarith
  then show ?thesis
  proof cases
    case 3
    with assms(2) have "tables_fit maxAlloc (q + Max (set (packageSizes opt)) + 1)" by simp
    from Optimize_fits[OF assms(1) 3 this] show ?thesis by auto
  qed (simp_all add: Optimize_def)
qed

lemma constructed_example:
  "NewOptimizer [3, 5] = Returns \<lparr>packageSizes = [5, 3]\<rparr>"
  by (simp add: NewOptimizer_def sort_descending_def)

lemma int64_example: "list_all int64 [3, 5]"
  by (simp add: int64_def)

lemma fits_example: "tables_fit (2 ^ 48) (4 + Max (set [5, 3]) + 1)"
  by (simp add: tables_fit_def)

section \<open>The solver on the store\<close>

lemma put_array_simps:
  "arrays (put_array st a xs) b = (if b = a then xs else arrays st b)"
  "lim (put_array st a xs) = lim st"
  "put_array (put_array st a xs) a ys = put_array st a ys"
  by (simp_all add: put_array_def)

lemma written_back_Returns:
  "written_back st dp (Returns (dp', pcs')) = Returns (put_array st dp dp', pcs')"
  by (simp add: written_back_def and_then_def)

lemma written_back_Panics: "written_back st dp (Panics m) = Panics m"
  by (simp add: written_back_def and_then_def)

lemma try_package_st_written_back:
  "try_package_st dp q mQ i s (st, pcs) =
     written_back st dp (try_package q mQ i s (arrays st dp, pcs))"
  by (simp add: try_package_st_def written_back_def)

lemma try_sizes_st_refines:
  assumes "sa \<noteq> dp" "n = length (arrays st sa)" "k \<le> n"
  shows "try_sizes_st sa dp q mQ i k n (st, pcs) =
           written_back st dp (try_sizes q mQ i (drop k (arrays st sa)) (arrays st dp, pcs))"
  using assms
proof (induction "n - k" arbitrary: k st pcs)
  case 0
  then have "k = n" by simp
  then show ?case
    using "0.prems"(2)
    by (subst try_sizes_st.simps) (simp add: written_back_Returns put_array_def)
next
  case (Suc d)
  then have k: "k < n" by simp
  let ?xs = "arrays st sa"
  have dr: "drop k ?xs = ?xs ! k # drop (k + 1) ?xs"
    using k Suc.prems(2) by (simp add: Cons_nth_drop_Suc)
  show ?case
  proof (cases "try_package q mQ i (?xs ! k) (arrays st dp, pcs)")
    case (Panics m)
    then show ?thesis
      using k Suc.prems(2)
      by (subst try_sizes_st.simps)
        (simp add: dr try_package_st_written_back written_back_Panics and_then_def)
  next
    case (Returns t1)
    obtain dp1 pcs1 where t1: "t1 = (dp1, pcs1)" by (cases t1)
    let ?st1 = "put_array st dp dp1"
    have a1: "arrays ?st1 sa = ?xs" "arrays ?st1 dp = dp1"
      using Suc.prems(1) by (simp_all add: put_array_simps)
    have "d = n - (k + 1)" using Suc.hyps(2) by simp
    from Suc.hyps(1)[OF this Suc.prems(1), of ?st1 pcs1] Suc.prems(2) k a1
    have ih: "try_sizes_st sa dp q mQ i (k + 1) n (?st1, pcs1) =
        written_back ?st1 dp (try_sizes q mQ i (drop (k + 1) ?xs) (dp1, pcs1))"
      by simp
    have wb: "written_back ?st1 dp r = written_back st dp r" for r
      by (cases r) (auto simp: written_back_def and_then_def put_array_simps)
    show ?thesis
      using k Suc.prems(2) Returns t1 ih
      by (subst try_sizes_st.simps)
        (simp add: dr try_package_st_written_back written_back_Returns and_then_def wb)
  qed
qed

lemma fill_table_st_refines:
  assumes "sa \<noteq> dp"
  shows "fill_table_st sa dp q mQ i (st, pcs) =
           written_back st dp (fill_table (arrays st sa) q mQ i (arrays st dp, pcs))"
proof (induction "nat (mQ + 1 - i)" arbitrary: i st pcs)
  case 0
  then have "\<not> i \<le> mQ" by simp
  then show ?case
    by (subst fill_table_st.simps, subst fill_table.simps)
      (simp add: written_back_Returns put_array_def)
next
  case (Suc d)
  then have True: "i \<le> mQ" by simp
  have inner: "try_sizes_st sa dp q mQ i 0 (length (arrays st sa)) (st, pcs) =
      written_back st dp (try_sizes q mQ i (arrays st sa) (arrays st dp, pcs))"
    using try_sizes_st_refines[OF assms refl, of 0 st q mQ i pcs] by simp
  show ?case
  proof (cases "try_sizes q mQ i (arrays st sa) (arrays st dp, pcs)")
    case (Panics m)
    then show ?thesis
      using True inner
      by (subst fill_table_st.simps, subst fill_table.simps) (simp add: written_back_Panics)
  next
    case (Returns t1)
    obtain dp1 pcs1 where t1: "t1 = (dp1, pcs1)" by (cases t1)
    let ?st1 = "put_array st dp dp1"
    have a1: "arrays ?st1 sa = arrays st sa" "arrays ?st1 dp = dp1"
      using assms by (simp_all add: put_array_simps)
    have "d = nat (mQ + 1 - (i + 1))" using Suc.hyps(2) by simp
    from Suc.hyps(1)[OF this, of ?st1 pcs1]
    have "fill_table_st sa dp q mQ (i + 1) (?st1, pcs1) =
        written_back ?st1 dp (fill_table (arrays ?st1 sa) q mQ (i + 1) (arrays ?st1 dp, pcs1))" .
    moreover have "written_back ?st1 dp r = written_back st dp r" for r
      by (cases r) (auto simp: written_back_def and_then_def put_array_simps)
    ultimately have ih: "fill_table_st sa dp q mQ (i + 1) (?st1, pcs1) =
        written_back st dp (fill_table (arrays st sa) q mQ (i + 1) (dp1, pcs1))"
      using a1 by simp
    show ?thesis
      using True inner Returns t1 ih
      by (subst fill_table_st.simps, subst fill_table.simps)
        (simp add: written_back_Returns)
  qed
qed

lemma findOptimalSolution_st_refines:
  assumes "packageSizes_at opt < lim st"
  shows "case findOptimalSolution maxAlloc \<lparr>packageSizes = arrays st (packageSizes_at opt)\<rparr> q of
           Panics m \<Rightarrow> findOptimalSolution_st maxAlloc st opt q = Panics m
         | Returns sol \<Rightarrow>
             (\<exists>st'. findOptimalSolution_st maxAlloc st opt q = Returns (sol, st') \<and>
                    same_but (lim st) st st')"
proof (cases "arrays st (packageSizes_at opt)")
  case Nil
  then show ?thesis by (simp add: findOptimalSolution_def findOptimalSolution_st_def)
next
  case (Cons M rest)
  let ?sa = "packageSizes_at opt"
  let ?xs = "arrays st ?sa"
  let ?mQ = "wrap64 (q + M)"
  let ?n = "wrap64 (?mQ + 1)"
  let ?dp = "lim st"
  have ne: "?sa \<noteq> ?dp" using assms by simp
  consider (dp_fails) "make_fails maxAlloc 8 ?n"
    | (pc_fails) "\<not> make_fails maxAlloc 8 ?n" "make_fails maxAlloc 24 ?n"
    | (empty) "\<not> make_fails maxAlloc 8 ?n" "\<not> make_fails maxAlloc 24 ?n" "?n = 0"
    | (made) "\<not> make_fails maxAlloc 8 ?n" "\<not> make_fails maxAlloc 24 ?n" "?n \<noteq> 0"
    by blast
  then show ?thesis
  proof cases
    case dp_fails
    then show ?thesis
      by (simp add: findOptimalSolution_def findOptimalSolution_st_def Cons init_table_def
          and_then_def Let_def)
  next
    case pc_fails
    then show ?thesis
      by (simp add: findOptimalSolution_def findOptimalSolution_st_def Cons init_table_def
          and_then_def Let_def make_ints_def)
  next
    case empty
    then show ?thesis
      by (simp add: findOptimalSolution_def findOptimalSolution_st_def Cons init_table_def
          and_then_def Let_def make_ints_def)
  next
    case made
    let ?dpz = "(replicate (nat ?n) ?n)[0 := 0]"
    let ?pcz = "(replicate (nat ?n) ([]::PackageCount list))[0 := []]"
    let ?sta = "snd (make_ints st (nat ?n))"
    let ?stb = "put_array ?sta ?dp (replicate (nat ?n) ?n)"
    let ?stc = "put_array ?stb ?dp ((arrays ?stb ?dp)[0 := 0])"
    have init: "init_table maxAlloc ?mQ = Returns (?dpz, ?pcz)"
      using made by (simp add: init_table_def Let_def)
    have st3: "arrays ?stc ?dp = ?dpz" "arrays ?stc ?sa = ?xs" "lim ?stc = lim st + 1"
      "\<And>a. a \<noteq> ?dp \<Longrightarrow> arrays ?stc a = arrays st a"
      using ne by (simp_all add: put_array_simps make_ints_def)
    have fill: "fill_table_st ?sa ?dp q ?mQ 1 (?stc, ?pcz) =
        written_back ?stc ?dp (fill_table ?xs q ?mQ 1 (?dpz, ?pcz))"
      using fill_table_st_refines[OF ne, of q ?mQ 1 ?stc ?pcz] st3(1,2) by simp
    have pure: "findOptimalSolution maxAlloc \<lparr>packageSizes = ?xs\<rparr> q =
        and_then (fill_table ?xs q ?mQ 1 (?dpz, ?pcz)) (\<lambda>(dp, packageCounts).
          if \<not> in_range dp q then Panics ''index out of range''
          else and_then (scan_best dp packageCounts ?mQ (q + 1) q (dp ! nat q))
                 (\<lambda>(bestQuantity, bestOverDelivery).
                    if \<not> in_range packageCounts bestQuantity then Panics ''index out of range''
                    else Returns \<lparr>totalDelivered = bestQuantity,
                                  packages = packageCounts ! nat bestQuantity\<rparr>))"
      unfolding findOptimalSolution_def using init
      by (simp add: Cons Let_def and_then_def)
    have stl: "findOptimalSolution_st maxAlloc st opt q =
        and_then (fill_table_st ?sa ?dp q ?mQ 1 (?stc, ?pcz)) (\<lambda>(st4, packageCounts).
          if \<not> in_range (arrays st4 ?dp) q then Panics ''index out of range''
          else and_then (scan_best (arrays st4 ?dp) packageCounts ?mQ (q + 1) q
                           (arrays st4 ?dp ! nat q))
                 (\<lambda>(bestQuantity, bestOverDelivery).
                    if \<not> in_range packageCounts bestQuantity then Panics ''index out of range''
                    else Returns (\<lparr>totalDelivered = bestQuantity,
                                   packages = packageCounts ! nat bestQuantity\<rparr>, st4)))"
      unfolding findOptimalSolution_st_def using made
      by (simp add: Cons Let_def make_ints_def)
    show ?thesis
    proof (cases "fill_table ?xs q ?mQ 1 (?dpz, ?pcz)")
      case (Panics m)
      then show ?thesis
        unfolding pure stl fill by (simp add: written_back_Panics and_then_def)
    next
      case (Returns t)
      obtain dp' pcs' where t: "t = (dp', pcs')" by (cases t)
      let ?std = "put_array ?stc ?dp dp'"
      have st4: "arrays ?std ?dp = dp'" "same_but ?dp st ?std"
        using st3(3,4) by (simp_all add: put_array_simps same_but_def)
      show ?thesis
      proof (cases "in_range dp' q")
        case False
        then show ?thesis
          unfolding pure stl fill Returns t
          by (simp add: written_back_Returns and_then_def st4(1))
      next
        case True
        show ?thesis
        proof (cases "scan_best dp' pcs' ?mQ (q + 1) q (dp' ! nat q)")
          case (Panics m)
          then show ?thesis
            unfolding pure stl fill Returns t using True
            by (simp add: written_back_Returns and_then_def st4(1))
        next
          case sb: (Returns best)
          obtain b bo where best: "best = (b, bo)" by (cases best)
          show ?thesis
            unfolding pure stl fill Returns t using True sb best st4(2)
            by (simp add: written_back_Returns and_then_def st4(1))
        qed
      qed
    qed
  qed
qed

lemma Optimize_st_refines:
  assumes "packageSizes_at opt < lim st"
  shows "case Optimize maxAlloc \<lparr>packageSizes = arrays st (packageSizes_at opt)\<rparr> q of
           Panics m \<Rightarrow> Optimize_st maxAlloc st opt q = Panics m
         | Returns res \<Rightarrow>
             (\<exists>st'. Optimize_st maxAlloc st opt q = Returns (res, st') \<and>
                    (st' = st \<or> same_but (lim st) st st'))"
proof -
  let ?cat = "\<lparr>packageSizes = arrays st (packageSizes_at opt)\<rparr>"
  consider "q < 0" | "q = 0" | "0 < q" by linarith
  then show ?thesis
  proof cases
    case 1
    then show ?thesis by (simp add: Optimize_def Optimize_st_def)
  next
    case 2
    then show ?thesis by (simp add: Optimize_def Optimize_st_def)
  next
    case 3
    show ?thesis
    proof (cases "findOptimalSolution maxAlloc ?cat q")
      case (Panics m)
      then show ?thesis
        using findOptimalSolution_st_refines[OF assms, of maxAlloc q] 3
        by (simp add: Optimize_def Optimize_st_def and_then_def)
    next
      case (Returns sol)
      then obtain st' where "findOptimalSolution_st maxAlloc st opt q = Returns (sol, st')"
          "same_but (lim st) st st'"
        using findOptimalSolution_st_refines[OF assms, of maxAlloc q] by auto
      then show ?thesis
        using Returns 3 by (simp add: Optimize_def Optimize_st_def and_then_def)
    qed
  qed
qed

lemma Optimize_st_result:
  assumes "packageSizes_at opt < lim st"
  shows "outcome_result (Optimize_st maxAlloc st opt q) =
           Optimize maxAlloc \<lparr>packageSizes = arrays st (packageSizes_at opt)\<rparr> q"
  using Optimize_st_refines[OF assms, of maxAlloc q]
  by (cases "Optimize maxAlloc \<lparr>packageSizes = arrays st (packageSizes_at opt)\<rparr> q")
    (auto simp: outcome_result_def)

lemma NewOptimizer_st_refines:
  assumes "a < lim st"
  shows "case NewOptimizer (arrays st a) of
     Panics m \<Rightarrow> NewOptimizer_st st a = Panics m
   | Returns opt \<Rightarrow>
       (\<exists>st'. NewOptimizer_st st a = Returns (\<lparr>packageSizes_at = lim st\<rparr>, st') \<and>
              same_but (lim st) st st' \<and> arrays st' (lim st) = packageSizes opt)"
  using assms
  by (auto simp: NewOptimizer_def NewOptimizer_st_def make_ints_def copy_ints_def
      put_array_def same_but_def Let_def)

lemma same_but_extends: "same_but (lim st) st st' \<Longrightarrow> extends st st'"
  by (auto simp: same_but_def extends_def)

lemma extends_refl: "extends st st"
  by (simp add: extends_def)

lemma extends_trans: "extends st st' \<Longrightarrow> extends st' st'' \<Longrightarrow> extends st st''"
  by (auto simp: extends_def)

lemma Optimize_st_frame:
  assumes "packageSizes_at opt < lim st" "Optimize_st maxAlloc st opt q = Returns (res, st')"
  shows "extends st st' \<and>
         Optimize maxAlloc \<lparr>packageSizes = arrays st (packageSizes_at opt)\<rparr> q = Returns res"
proof (cases "Optimize maxAlloc \<lparr>packageSizes = arrays st (packageSizes_at opt)\<rparr> q")
  case (Panics m)
  then show ?thesis using Optimize_st_refines[OF assms(1), of maxAlloc q] assms(2) by simp
next
  case (Returns res0)
  then obtain st0 where "Optimize_st maxAlloc st opt q = Returns (res0, st0)"
      "st0 = st \<or> same_but (lim st) st st0"
    using Optimize_st_refines[OF assms(1), of maxAlloc q] by auto
  then show ?thesis
    using assms(2) Returns same_but_extends extends_refl by auto
qed

lemma Optimize_calls_frame:
  assumes "packageSizes_at opt < lim st"
    "Optimize_calls maxAlloc st opt qs = Returns (results, st')"
  shows "extends st st' \<and>
         map Returns results =
           map (Optimize maxAlloc \<lparr>packageSizes = arrays st (packageSizes_at opt)\<rparr>) qs"
  using assms
proof (induction qs arbitrary: st results)
  case Nil
  then show ?case by (simp add: extends_refl)
next
  case (Cons q qs)
  from Cons.prems(2) obtain res st1 where
    one: "Optimize_st maxAlloc st opt q = Returns (res, st1)"
    by (cases "Optimize_st maxAlloc st opt q") (auto simp: and_then_def)
  from Cons.prems(2) one obtain rs where
    rest: "Optimize_calls maxAlloc st1 opt qs = Returns (rs, st')"
    and results: "results = res # rs"
    by (cases "Optimize_calls maxAlloc st1 opt qs") (auto simp: and_then_def)
  from Optimize_st_frame[OF Cons.prems(1) one]
  have e1: "extends st st1"
    and r1: "Optimize maxAlloc \<lparr>packageSizes = arrays st (packageSizes_at opt)\<rparr> q = Returns res"
    by auto
  have lim1: "packageSizes_at opt < lim st1" using e1 Cons.prems(1) by (auto simp: extends_def)
  have cat: "arrays st1 (packageSizes_at opt) = arrays st (packageSizes_at opt)"
    using e1 Cons.prems(1) by (auto simp: extends_def)
  from Cons.IH[OF lim1 rest]
  have e2: "extends st1 st'"
    and r2: "map Returns rs =
      map (Optimize maxAlloc \<lparr>packageSizes = arrays st1 (packageSizes_at opt)\<rparr>) qs"
    by auto
  show ?case using extends_trans[OF e1 e2] r1 r2 results cat by simp
qed

lemma Optimize_calls_returns:
  assumes "packageSizes_at opt < lim st"
    "NewOptimizer xs = Returns \<lparr>packageSizes = arrays st (packageSizes_at opt)\<rparr>"
    "\<forall>q\<in>set qs. q \<le> 0 \<or>
        tables_fit maxAlloc (q + Max (set (arrays st (packageSizes_at opt))) + 1)"
  shows "\<exists>results st'. Optimize_calls maxAlloc st opt qs = Returns (results, st')"
  using assms
proof (induction qs arbitrary: st)
  case Nil
  show ?case by simp
next
  case (Cons q qs)
  let ?cat = "\<lparr>packageSizes = arrays st (packageSizes_at opt)\<rparr>"
  have "q \<le> 0 \<or> tables_fit maxAlloc (q + Max (set (packageSizes ?cat)) + 1)"
    using Cons.prems(3) by simp
  from Optimize_returns[OF Cons.prems(2) this]
  obtain res where "Optimize maxAlloc ?cat q = Returns res" by blast
  then obtain st1 where one: "Optimize_st maxAlloc st opt q = Returns (res, st1)"
    using Optimize_st_refines[OF Cons.prems(1), of maxAlloc q] by auto
  from Optimize_st_frame[OF Cons.prems(1) one] have e: "extends st st1" by simp
  have l: "packageSizes_at opt < lim st1"
    and a: "arrays st1 (packageSizes_at opt) = arrays st (packageSizes_at opt)"
    using e Cons.prems(1) by (auto simp: extends_def)
  from Cons.IH[OF l] a Cons.prems(2,3)
  obtain rs st' where "Optimize_calls maxAlloc st1 opt qs = Returns (rs, st')" by auto
  then show ?case using one by (simp add: and_then_def)
qed

lemma NewOptimizer_st_Returns:
  assumes "a < lim st" "NewOptimizer_st st a = Returns (opt, st1)"
  shows "packageSizes_at opt = lim st \<and> same_but (lim st) st st1 \<and>
         arrays st1 (lim st) = sort_descending (arrays st a) \<and>
         NewOptimizer (arrays st a) = Returns \<lparr>packageSizes = arrays st1 (lim st)\<rparr>"
  using NewOptimizer_st_refines[OF assms(1)] assms(2)
  by (auto simp: NewOptimizer_def split: if_splits)

section \<open>The claims\<close>

text \<open>
  In the theorems below \<open>NewOptimizer sizes_in = Returns opt\<close> says that \<open>opt\<close> is a
  constructed optimizer, \<open>list_all int64 sizes_in\<close> and \<open>int64 quantity\<close> say that the
  arguments are Go \<open>int\<close>s, and \<open>tables_fit maxAlloc (quantity + M + 1)\<close>, with \<open>M\<close> the
  largest catalog size, says that the two tables of the solver can be made.
\<close>

text \<open>
  C1. A combination of packages is a list \<open>ps\<close> of catalog sizes, one entry per package;
  it delivers \<open>sum_list ps\<close>. For a constructed optimizer and a quantity above zero, every
  result \<open>Optimize\<close> returns has minimal over-delivery: its delivered total is delivered
  by a combination that reaches the quantity, its \<open>OverDelivery\<close> is the excess of that
  combination, and no combination that reaches the quantity has a smaller excess. The
  call does return a result whenever the tables of the solver can be made.
\<close>

theorem Optimize_least_over_delivery:
  assumes "NewOptimizer sizes_in = Returns opt" and "list_all int64 sizes_in"
    and "0 < quantity"
  shows "(tables_fit maxAlloc (quantity + Max (set (packageSizes opt)) + 1) \<longrightarrow>
            (\<exists>r. Optimize maxAlloc opt quantity = Returns (Some r, None))) \<and>
         (\<forall>r. Optimize maxAlloc opt quantity = Returns (Some r, None) \<longrightarrow>
            (\<exists>ps. set ps \<subseteq> set (packageSizes opt) \<and> sum_list ps = TotalDelivered r \<and>
                  quantity \<le> sum_list ps \<and> OverDelivery r = sum_list ps - quantity) \<and>
            (\<forall>ps. set ps \<subseteq> set (packageSizes opt) \<and> quantity \<le> sum_list ps \<longrightarrow>
                  OverDelivery r \<le> sum_list ps - quantity))"
proof (intro conjI allI impI)
  assume "tables_fit maxAlloc (quantity + Max (set (packageSizes opt)) + 1)"
  from Optimize_fits[OF assms(1,3) this]
  show "\<exists>r. Optimize maxAlloc opt quantity = Returns (Some r, None)" by blast
next
  fix r assume r: "Optimize maxAlloc opt quantity = Returns (Some r, None)"
  from Optimize_Returns[OF assms r]
  obtain sol where sol: "solution_ok (packageSizes opt) quantity sol"
    "TotalDelivered r = totalDelivered sol" "OverDelivery r = totalDelivered sol - quantity"
    by auto
  from breakdown_achievable[of "packageSizes opt" "totalDelivered sol" "packages sol"] sol(1)
  obtain ps where "set ps \<subseteq> set (packageSizes opt)" "sum_list ps = totalDelivered sol"
    by (auto simp: solution_ok_def)
  then show "\<exists>ps. set ps \<subseteq> set (packageSizes opt) \<and> sum_list ps = TotalDelivered r \<and>
      quantity \<le> sum_list ps \<and> OverDelivery r = sum_list ps - quantity"
    using sol by (intro exI[of _ ps]) (simp add: solution_ok_def)
next
  fix r ps
  assume r: "Optimize maxAlloc opt quantity = Returns (Some r, None)"
    and ps: "set ps \<subseteq> set (packageSizes opt) \<and> quantity \<le> sum_list ps"
  from Optimize_Returns[OF assms r]
  obtain sol where sol: "solution_ok (packageSizes opt) quantity sol"
    "OverDelivery r = totalDelivered sol - quantity"
    by auto
  then show "OverDelivery r \<le> sum_list ps - quantity"
    using ps by (simp add: solution_ok_def)
qed

theorem Optimize_least_over_delivery_witness:
  "\<exists>r. Optimize (2 ^ 48) \<lparr>packageSizes = [5, 3]\<rparr> 4 = Returns (Some r, None) \<and>
       OverDelivery r \<le> sum_list [3, 3] - 4"
proof -
  have q: "(0::int) < 4" by simp
  note t = Optimize_least_over_delivery[OF constructed_example int64_example q, of "2 ^ 48"]
  from t fits_example
  obtain r where r: "Optimize (2 ^ 48) \<lparr>packageSizes = [5, 3]\<rparr> 4 = Returns (Some r, None)"
    by auto
  with t have "\<forall>ps. set ps \<subseteq> set (packageSizes \<lparr>packageSizes = [5, 3]\<rparr>) \<and> 4 \<le> sum_list ps \<longrightarrow>
        OverDelivery r \<le> sum_list ps - 4"
    by blast
  from this[rule_format, of "[3, 3]"] have "OverDelivery r \<le> sum_list [3, 3] - 4" by simp
  with r show ?thesis by blast
qed

text \<open>
  C3, as the code has it. For a constructed optimizer and a quantity that is not
  negative: when the quantity is zero or the tables of the solver can be made,
  \<open>Optimize\<close> returns a result with \<open>TotalDelivered\<close> at least the quantity and
  \<open>OverDelivery = TotalDelivered - Requested\<close>, not negative, and for a quantity above
  zero the over-delivery is at most \<open>M - 1\<close> and the delivered total at most
  \<open>quantity + M - 1\<close>, where \<open>M\<close> is the largest catalog size; when the quantity is above
  zero and the tables cannot be made (as when \<open>quantity + M + 1\<close> leaves the 64-bit
  range), the call panics in \<open>make\<close> and returns nothing.
\<close>

theorem Optimize_delivery_bounds:
  assumes "NewOptimizer sizes_in = Returns opt" and "list_all int64 sizes_in"
    and "0 \<le> quantity" and "int64 quantity"
  shows "(quantity = 0 \<or> tables_fit maxAlloc (quantity + Max (set (packageSizes opt)) + 1) \<longrightarrow>
            (\<exists>r. Optimize maxAlloc opt quantity = Returns (Some r, None) \<and>
                 Requested r = quantity \<and>
                 quantity \<le> TotalDelivered r \<and>
                 OverDelivery r = TotalDelivered r - Requested r \<and>
                 0 \<le> OverDelivery r \<and>
                 (0 < quantity \<longrightarrow>
                    OverDelivery r \<le> Max (set (packageSizes opt)) - 1 \<and>
                    TotalDelivered r \<le> quantity + Max (set (packageSizes opt)) - 1))) \<and>
         (0 < quantity \<and>
          \<not> tables_fit maxAlloc (quantity + Max (set (packageSizes opt)) + 1) \<longrightarrow>
            Optimize maxAlloc opt quantity = Panics ''makeslice: len out of range'')"
proof (intro conjI impI)
  assume a: "quantity = 0 \<or>
    tables_fit maxAlloc (quantity + Max (set (packageSizes opt)) + 1)"
  show "\<exists>r. Optimize maxAlloc opt quantity = Returns (Some r, None) \<and>
      Requested r = quantity \<and> quantity \<le> TotalDelivered r \<and>
      OverDelivery r = TotalDelivered r - Requested r \<and> 0 \<le> OverDelivery r \<and>
      (0 < quantity \<longrightarrow>
         OverDelivery r \<le> Max (set (packageSizes opt)) - 1 \<and>
         TotalDelivered r \<le> quantity + Max (set (packageSizes opt)) - 1)"
  proof (cases "quantity = 0")
    case True
    then show ?thesis using Optimize_at_zero[of maxAlloc opt] by simp
  next
    case False
    then have q: "0 < quantity" using assms(3) by simp
    from a False
    have fit: "tables_fit maxAlloc (quantity + Max (set (packageSizes opt)) + 1)" by simp
    from Optimize_fits[OF assms(1) q fit]
    obtain sol where sol: "solution_ok (packageSizes opt) quantity sol"
      "Optimize maxAlloc opt quantity =
         Returns (Some \<lparr>Requested = quantity,
                        TotalDelivered = totalDelivered sol,
                        OverDelivery = totalDelivered sol - quantity,
                        Packages = fold put_package (packages sol) Map.empty\<rparr>, None)"
      by blast
    show ?thesis unfolding sol(2) using sol(1) q by (simp add: solution_ok_def)
  qed
next
  assume "0 < quantity \<and>
    \<not> tables_fit maxAlloc (quantity + Max (set (packageSizes opt)) + 1)"
  then show "Optimize maxAlloc opt quantity = Panics ''makeslice: len out of range''"
    using Optimize_unfit[OF assms(1,2) _ assms(4)] by blast
qed

theorem Optimize_delivery_bounds_witness:
  "(\<exists>r. Optimize (2 ^ 48) \<lparr>packageSizes = [5, 3]\<rparr> 4 = Returns (Some r, None) \<and>
       4 \<le> TotalDelivered r \<and> OverDelivery r \<le> Max (set [5, 3]) - 1) \<and>
   Optimize 100 \<lparr>packageSizes = [5, 3]\<rparr> 4 = Panics ''makeslice: len out of range''"
proof -
  have q: "(0::int) \<le> 4" "int64 4" by (simp_all add: int64_def)
  have unfit: "\<not> tables_fit 100 (4 + Max (set [5, 3]) + 1)" by (simp add: tables_fit_def)
  from Optimize_delivery_bounds[OF constructed_example int64_example q, of "2 ^ 48"]
    Optimize_delivery_bounds[OF constructed_example int64_example q, of 100]
    fits_example unfit
  show ?thesis by auto
qed

text \<open>
  C3, as stated, fails: for the catalog of the one size \<open>2 ^ 63 - 1\<close> and the quantity 1,
  line 109 wraps to \<open>- 2 ^ 63\<close>, \<open>make\<close> gets a negative length, and \<open>Optimize\<close> panics
  instead of returning a delivered total.
\<close>

theorem Optimize_overflow_counterexample:
  "NewOptimizer [9223372036854775807] = Returns \<lparr>packageSizes = [9223372036854775807]\<rparr> \<and>
   Optimize (2 ^ 48) \<lparr>packageSizes = [9223372036854775807]\<rparr> 1 =
     Panics ''makeslice: len out of range''"
  by (simp add: NewOptimizer_def sort_descending_def Optimize_def findOptimalSolution_def
      init_table_def wrap64_def make_fails_def and_then_def Let_def)

text \<open>
  C4. For every successful call, \<open>TotalDelivered\<close> is the sum of size times count over
  the returned \<open>Packages\<close> mapping: every key is the decimal rendering of a catalog size,
  different catalog sizes have different keys, the count of a size is the value stored
  under its key (\<open>count_for\<close>), and every stored count is above zero.
\<close>

theorem Optimize_packages_account:
  assumes "NewOptimizer sizes_in = Returns opt" and "list_all int64 sizes_in"
    and "Optimize maxAlloc opt quantity = Returns (Some r, None)"
  shows "TotalDelivered r = (\<Sum>s\<in>set (packageSizes opt). s * count_for (Packages r) s) \<and>
         dom (Packages r) \<subseteq> fmt_d ` set (packageSizes opt) \<and>
         inj_on fmt_d (set (packageSizes opt)) \<and>
         (\<forall>k c. Packages r k = Some c \<longrightarrow> 0 < c)"
proof -
  have inj: "inj_on fmt_d (set (packageSizes opt))" using fmt_d_inj by (auto intro: inj_onI)
  have nonneg: "\<not> quantity < 0" using assms(3) by (auto simp: Optimize_def split: if_splits)
  show ?thesis
  proof (cases "quantity = 0")
    case True
    then have "r = \<lparr>Requested = 0, TotalDelivered = 0, OverDelivery = 0, Packages = Map.empty\<rparr>"
      using assms(3) Optimize_at_zero[of maxAlloc opt] by simp
    then show ?thesis using inj by (simp add: count_for_def)
  next
    case False
    then have q: "0 < quantity" using nonneg by simp
    from Optimize_Returns[OF assms(1,2) q assms(3)]
    obtain sol where sol: "solution_ok (packageSizes opt) quantity sol"
      "TotalDelivered r = totalDelivered sol"
      "Packages r = fold put_package (packages sol) Map.empty"
      by auto
    have "breakdown_ok (packageSizes opt) (totalDelivered sol) (packages sol)"
      using sol(1) by (simp add: solution_ok_def)
    note b = breakdown_packages[OF this]
    show ?thesis unfolding sol(2,3) using b(1,2,3) inj by blast
  qed
qed

theorem Optimize_packages_account_witness:
  "\<exists>r. Optimize (2 ^ 48) \<lparr>packageSizes = [5, 3]\<rparr> 4 = Returns (Some r, None) \<and>
       TotalDelivered r = (\<Sum>s\<in>set [5, 3]. s * count_for (Packages r) s) \<and>
       dom (Packages r) \<subseteq> fmt_d ` set [5, 3]"
proof -
  have q: "(0::int) < 4" by simp
  from Optimize_fits[OF constructed_example q] fits_example
  obtain r where r: "Optimize (2 ^ 48) \<lparr>packageSizes = [5, 3]\<rparr> 4 = Returns (Some r, None)"
    by auto
  from Optimize_packages_account[OF constructed_example int64_example r] r
  show ?thesis by auto
qed

text \<open>
  C5, as the code has it. The catalog built by \<open>NewOptimizer\<close> is in descending
  (non-increasing) order and holds exactly the sizes of the input with their
  multiplicities: a duplicate size is kept, neither collapsed nor rejected, so the
  catalog is free of duplicates exactly when the input is.
\<close>

theorem NewOptimizer_sorted_descending:
  assumes "NewOptimizer sizes_in = Returns opt"
  shows "sorted (rev (packageSizes opt)) \<and> mset (packageSizes opt) = mset sizes_in \<and>
         (distinct (packageSizes opt) \<longleftrightarrow> distinct sizes_in)"
proof -
  have p: "packageSizes opt = rev (sort sizes_in)"
    using NewOptimizer_Returns[OF assms] by (simp add: sort_descending_def)
  have m: "mset (packageSizes opt) = mset sizes_in" unfolding p by simp
  have "distinct (packageSizes opt) \<longleftrightarrow> distinct sizes_in"
    using m by (metis mset_eq_imp_distinct_iff)
  then show ?thesis using m unfolding p by simp
qed

theorem NewOptimizer_sorted_descending_witness:
  "sorted (rev [5, 3, 3 :: int]) \<and> mset [5, 3, 3] = mset [3, 5, 3 :: int] \<and>
   (distinct [5, 3, 3 :: int] \<longleftrightarrow> distinct [3, 5, 3 :: int])"
proof -
  have n: "NewOptimizer [3, 5, 3] = Returns \<lparr>packageSizes = [5, 3, 3]\<rparr>"
    by (simp add: NewOptimizer_def sort_descending_def)
  from NewOptimizer_sorted_descending[OF n] show ?thesis by simp
qed

text \<open>
  C5, as stated, fails: the accepted input \<open>[5, 5]\<close> gives the catalog \<open>[5, 5]\<close>,
  which contains a duplicate size.
\<close>

theorem NewOptimizer_duplicates_counterexample:
  "NewOptimizer [5, 5] = Returns \<lparr>packageSizes = [5, 5]\<rparr> \<and> \<not> distinct [5, 5 :: int]"
  by (simp add: NewOptimizer_def sort_descending_def)

text \<open>
  C6, as the code has it. Construction from an empty collection panics with
  "package sizes cannot be empty", construction from a non-empty collection with an
  element that is zero or negative panics with "package sizes must be positive", and
  construction from a non-empty collection of positive integers returns the optimizer
  holding the sizes in descending order.
\<close>

theorem NewOptimizer_validation:
  "(sizes_in = [] \<longrightarrow> NewOptimizer sizes_in = Panics ''package sizes cannot be empty'') \<and>
   (sizes_in \<noteq> [] \<and> (\<exists>s\<in>set sizes_in. s \<le> 0) \<longrightarrow>
      NewOptimizer sizes_in = Panics ''package sizes must be positive'') \<and>
   (sizes_in \<noteq> [] \<and> (\<forall>s\<in>set sizes_in. 0 < s) \<longrightarrow>
      NewOptimizer sizes_in = Returns \<lparr>packageSizes = sort_descending sizes_in\<rparr>)"
proof -
  have "list_ex (\<lambda>size. size \<le> 0) sizes_in \<longleftrightarrow> \<not> (\<forall>s\<in>set sizes_in. 0 < s)"
    by (auto simp: list_ex_iff not_less)
  then show ?thesis by (auto simp: NewOptimizer_def)
qed

theorem NewOptimizer_validation_witness:
  "NewOptimizer [] = Panics ''package sizes cannot be empty'' \<and>
   NewOptimizer [-100, 200] = Panics ''package sizes must be positive'' \<and>
   NewOptimizer [250, 500] = Returns \<lparr>packageSizes = sort_descending [250, 500]\<rparr>"
  using NewOptimizer_validation[of "[]"] NewOptimizer_validation[of "[-100, 200]"]
    NewOptimizer_validation[of "[250, 500]"]
  by simp

text \<open>
  C6, as stated, fails: on the empty collection \<open>NewOptimizer\<close> does not return a
  failure value, it panics.
\<close>

theorem NewOptimizer_empty_counterexample:
  "NewOptimizer [] = Panics ''package sizes cannot be empty''"
  by (simp add: NewOptimizer_def)

text \<open>
  C7, as the code has it. For a constructed optimizer: a negative quantity makes
  \<open>Optimize\<close> return the invalid-quantity error and a \<open>nil\<close> result; whenever
  \<open>Optimize\<close> returns, the error is set exactly when the quantity is negative, and no
  result accompanies an error; a quantity that is not negative succeeds when it is zero
  or the tables of the solver can be made; and a quantity above zero for which the
  tables cannot be made (as when \<open>quantity + M + 1\<close> leaves the 64-bit range) makes the
  call panic in \<open>make\<close>, returning neither a result nor an error.
\<close>

theorem Optimize_error_iff_negative:
  assumes "NewOptimizer sizes_in = Returns opt" and "list_all int64 sizes_in"
    and "int64 quantity"
  shows "(quantity < 0 \<longrightarrow>
            Optimize maxAlloc opt quantity = Returns (None, Some (InvalidQuantity quantity))) \<and>
         (\<forall>res err. Optimize maxAlloc opt quantity = Returns (res, err) \<longrightarrow>
            (err \<noteq> None \<longleftrightarrow> quantity < 0) \<and> (err \<noteq> None \<longrightarrow> res = None) \<and>
            (err = None \<longrightarrow> res \<noteq> None)) \<and>
         (0 \<le> quantity \<and>
          (quantity = 0 \<or> tables_fit maxAlloc (quantity + Max (set (packageSizes opt)) + 1)) \<longrightarrow>
            (\<exists>r. Optimize maxAlloc opt quantity = Returns (Some r, None))) \<and>
         (0 < quantity \<and>
          \<not> tables_fit maxAlloc (quantity + Max (set (packageSizes opt)) + 1) \<longrightarrow>
            Optimize maxAlloc opt quantity = Panics ''makeslice: len out of range'')"
proof -
  consider "quantity < 0" | "quantity = 0" | "0 < quantity" by linarith
  then show ?thesis
  proof cases
    case 1
    then show ?thesis by (simp add: Optimize_def)
  next
    case 2
    then show ?thesis by (simp add: Optimize_def)
  next
    case 3
    show ?thesis
    proof (cases "tables_fit maxAlloc (quantity + Max (set (packageSizes opt)) + 1)")
      case True
      from Optimize_fits[OF assms(1) 3 True] 3 True show ?thesis by auto
    next
      case False
      from Optimize_unfit[OF assms(1,2) 3 assms(3) False] 3 False show ?thesis by simp
    qed
  qed
qed

theorem Optimize_error_iff_negative_witness:
  "Optimize (2 ^ 48) \<lparr>packageSizes = [5, 3]\<rparr> (- 100) =
     Returns (None, Some (InvalidQuantity (- 100))) \<and>
   (\<exists>r. Optimize (2 ^ 48) \<lparr>packageSizes = [5, 3]\<rparr> 4 = Returns (Some r, None)) \<and>
   Optimize 100 \<lparr>packageSizes = [5, 3]\<rparr> 4 = Panics ''makeslice: len out of range''"
proof -
  have q: "int64 (- 100)" "int64 4" by (simp_all add: int64_def)
  have unfit: "\<not> tables_fit 100 (4 + Max (set [5, 3]) + 1)" by (simp add: tables_fit_def)
  from Optimize_error_iff_negative[OF constructed_example int64_example q(1), of "2 ^ 48"]
    Optimize_error_iff_negative[OF constructed_example int64_example q(2), of "2 ^ 48"]
    Optimize_error_iff_negative[OF constructed_example int64_example q(2), of 100]
    fits_example unfit
  show ?thesis by simp
qed

text \<open>
  C7, as stated, fails: for the catalog \<open>{1}\<close> and the quantity \<open>2 ^ 63 - 1\<close>, which is
  not negative, \<open>maxQuantity + 1\<close> wraps to \<open>- 2 ^ 63\<close> and \<open>Optimize\<close> panics in
  \<open>make\<close> instead of succeeding.
\<close>

theorem Optimize_huge_quantity_counterexample:
  "NewOptimizer [1] = Returns \<lparr>packageSizes = [1]\<rparr> \<and>
   (0::int) \<le> 9223372036854775807 \<and>
   Optimize (2 ^ 48) \<lparr>packageSizes = [1]\<rparr> 9223372036854775807 =
     Panics ''makeslice: len out of range''"
  by (simp add: NewOptimizer_def sort_descending_def Optimize_def findOptimalSolution_def
      init_table_def wrap64_def make_fails_def and_then_def Let_def)

text \<open>
  C8. At quantity zero \<open>Optimize\<close> returns the all-zero result with an empty
  \<open>Packages\<close> mapping, whatever the optimizer (the branch does not look at the catalog);
  and for a constructed optimizer the returned mapping is empty exactly when
  \<open>Requested\<close> is zero, so it is not empty for a quantity above zero.
\<close>

theorem Optimize_zero_and_empty_packages:
  assumes "NewOptimizer sizes_in = Returns opt" and "list_all int64 sizes_in"
  shows "Optimize maxAlloc any_opt 0 =
           Returns (Some \<lparr>Requested = 0, TotalDelivered = 0, OverDelivery = 0,
                          Packages = Map.empty\<rparr>, None) \<and>
         (\<forall>r. Optimize maxAlloc opt quantity = Returns (Some r, None) \<longrightarrow>
               (Packages r = Map.empty \<longleftrightarrow> Requested r = 0) \<and>
               (0 < quantity \<longrightarrow> Packages r \<noteq> Map.empty))"
proof -
  have "(Packages r = Map.empty \<longleftrightarrow> Requested r = 0) \<and> (0 < quantity \<longrightarrow> Packages r \<noteq> Map.empty)"
    if r: "Optimize maxAlloc opt quantity = Returns (Some r, None)" for r
  proof -
    have nonneg: "\<not> quantity < 0" using r by (auto simp: Optimize_def split: if_splits)
    show ?thesis
    proof (cases "quantity = 0")
      case True
      then show ?thesis using r Optimize_at_zero[of maxAlloc opt] by auto
    next
      case False
      then have q: "0 < quantity" using nonneg by simp
      from Optimize_Returns[OF assms q r]
      obtain sol where sol: "solution_ok (packageSizes opt) quantity sol"
        "Requested r = quantity"
        "Packages r = fold put_package (packages sol) Map.empty"
        by auto
      have bd: "breakdown_ok (packageSizes opt) (totalDelivered sol) (packages sol)"
        and "quantity \<le> totalDelivered sol"
        using sol(1) by (simp_all add: solution_ok_def)
      then have "totalDelivered sol \<noteq> 0" using q by simp
      from breakdown_packages(4)[OF bd this]
      show ?thesis using sol(2,3) q by simp
    qed
  qed
  then show ?thesis using Optimize_at_zero[of maxAlloc any_opt] by blast
qed

theorem Optimize_zero_and_empty_packages_witness:
  "\<exists>r. Optimize (2 ^ 48) \<lparr>packageSizes = [5, 3]\<rparr> 4 = Returns (Some r, None) \<and>
       Packages r \<noteq> Map.empty \<and> Requested r \<noteq> 0"
proof -
  have q: "(0::int) < 4" by simp
  from Optimize_fits[OF constructed_example q] fits_example
  obtain r where r: "Optimize (2 ^ 48) \<lparr>packageSizes = [5, 3]\<rparr> 4 = Returns (Some r, None)"
    by auto
  with Optimize_zero_and_empty_packages[OF constructed_example int64_example,
      of "2 ^ 48" "\<lparr>packageSizes = [5, 3]\<rparr>" 4] q
  have "Packages r \<noteq> Map.empty \<and> Requested r \<noteq> 0" by blast
  with r show ?thesis by blast
qed

text \<open>
  C9. On the store, where every call receives the store the calls before it left: for
  an optimizer constructed from an allocated slice and any sequence of \<open>Optimize\<close>
  calls that returned, two calls of the sequence with the same quantity returned the
  same result, and a further call with any quantity has the outcome (result or panic)
  that the same call has right after construction. More generally, a call on any store
  and any optimizer whose array holds the same catalog has that outcome: the outcome
  of a call depends on the catalog and the quantity only, not on the rest of the store
  or on the calls made before.
\<close>

theorem Optimize_deterministic:
  assumes "packageSizes_in < lim st"
    and "NewOptimizer_st st packageSizes_in = Returns (opt, st1)"
    and "Optimize_calls maxAlloc st1 opt qs = Returns (results, st2)"
  shows "length results = length qs \<and>
         (\<forall>i<length qs. \<forall>j<length qs. qs ! i = qs ! j \<longrightarrow> results ! i = results ! j) \<and>
         (\<forall>q. outcome_result (Optimize_st maxAlloc st2 opt q) =
               outcome_result (Optimize_st maxAlloc st1 opt q)) \<and>
         (\<forall>st' opt' q.
            packageSizes_at opt' < lim st' \<and>
            arrays st' (packageSizes_at opt') = arrays st1 (packageSizes_at opt) \<longrightarrow>
            outcome_result (Optimize_st maxAlloc st' opt' q) =
              outcome_result (Optimize_st maxAlloc st1 opt q))"
proof -
  note new = NewOptimizer_st_Returns[OF assms(1,2)]
  have l1: "packageSizes_at opt < lim st1" using new by (auto simp: same_but_def)
  let ?f = "Optimize maxAlloc \<lparr>packageSizes = arrays st1 (packageSizes_at opt)\<rparr>"
  from Optimize_calls_frame[OF l1 assms(3)]
  have e: "extends st1 st2" and m: "map Returns results = map ?f qs" by simp_all
  have len: "length results = length qs" using m by (metis length_map)
  have at: "Returns (results ! i) = ?f (qs ! i)" if "i < length qs" for i
    using that len m by (metis nth_map)
  have same: "results ! i = results ! j"
    if "i < length qs" "j < length qs" "qs ! i = qs ! j" for i j
    using at[OF that(1), symmetric] at[OF that(2), symmetric] that(3) by simp
  have l2: "packageSizes_at opt < lim st2"
    and cat: "arrays st2 (packageSizes_at opt) = arrays st1 (packageSizes_at opt)"
    using e l1 by (auto simp: extends_def)
  have later: "outcome_result (Optimize_st maxAlloc st2 opt q) =
      outcome_result (Optimize_st maxAlloc st1 opt q)" for q
    unfolding Optimize_st_result[OF l1] Optimize_st_result[OF l2] cat ..
  have other: "outcome_result (Optimize_st maxAlloc st' opt' q) =
      outcome_result (Optimize_st maxAlloc st1 opt q)"
    if "packageSizes_at opt' < lim st' \<and>
      arrays st' (packageSizes_at opt') = arrays st1 (packageSizes_at opt)" for st' opt' q
    using that Optimize_st_result[OF l1, of maxAlloc q]
      Optimize_st_result[of opt' st' maxAlloc q] by simp
  show ?thesis using len same later other by blast
qed

theorem Optimize_deterministic_witness:
  "\<exists>opt st1 results st2.
     NewOptimizer_st \<lparr>arrays = (\<lambda>a. if a = 0 then [3, 5] else []), lim = 1\<rparr> 0 =
       Returns (opt, st1) \<and>
     Optimize_calls (2 ^ 48) st1 opt [4, 7, 4] = Returns (results, st2) \<and>
     results ! 0 = results ! 2 \<and>
     outcome_result (Optimize_st (2 ^ 48) st2 opt 7) =
       outcome_result (Optimize_st (2 ^ 48) st1 opt 7)"
proof -
  let ?st = "\<lparr>arrays = (\<lambda>a. if a = 0 then [3, 5] else []), lim = 1\<rparr>"
  obtain opt st1 where n: "NewOptimizer_st ?st 0 = Returns (opt, st1)"
    by (simp add: NewOptimizer_st_def make_ints_def Let_def)
  have l: "0 < lim ?st" by simp
  note new = NewOptimizer_st_Returns[OF l n]
  have l1: "packageSizes_at opt < lim st1" using new by (auto simp: same_but_def)
  have cat: "arrays st1 (packageSizes_at opt) = [5, 3]"
    using new by (simp add: sort_descending_def)
  have pure: "NewOptimizer [3, 5] = Returns \<lparr>packageSizes = arrays st1 (packageSizes_at opt)\<rparr>"
    using new by simp
  have "\<forall>q\<in>set [4, 7, 4]. q \<le> 0 \<or>
      tables_fit (2 ^ 48) (q + Max (set (arrays st1 (packageSizes_at opt))) + 1)"
    unfolding cat by (simp add: tables_fit_def)
  from Optimize_calls_returns[OF l1 pure this]
  obtain results st2 where c: "Optimize_calls (2 ^ 48) st1 opt [4, 7, 4] = Returns (results, st2)"
    by blast
  from Optimize_deterministic[OF l n c]
  have "results ! 0 = results ! 2"
    "outcome_result (Optimize_st (2 ^ 48) st2 opt 7) =
       outcome_result (Optimize_st (2 ^ 48) st1 opt 7)"
    by simp_all
  with n c show ?thesis by blast
qed

text \<open>
  C2 at the catalog \<open>{4, 3, 1}\<close> and quantity 6. The solver compares
  \<open>len(packageCounts[...])\<close>, the number of different sizes in a breakdown, where the
  comment on lines 141-143 says "fewer packages". The call returns one package of size 4
  and two of size 1 (three packages, over-delivery 0), while two packages of size 3
  deliver 6 as well.
\<close>

theorem Optimize_package_count_not_minimal:
  "(case Optimize (2 ^ 48) \<lparr>packageSizes = [4, 3, 1]\<rparr> 6 of
      Returns (Some r, None) \<Rightarrow>
         OverDelivery r = 0 \<and>
         count_for (Packages r) 4 = 1 \<and> count_for (Packages r) 3 = 0 \<and>
         count_for (Packages r) 1 = 2
    | _ \<Rightarrow> False) \<and>
   NewOptimizer [4, 3, 1] = Returns \<lparr>packageSizes = [4, 3, 1]\<rparr> \<and>
   set [3, 3] \<subseteq> set [4, 3, 1 :: int] \<and> sum_list [3, 3 :: int] - 6 = 0 \<and>
   int (length [3, 3 :: int]) < 1 + 0 + 2"
  by code_simp

text \<open>
  C10. With the argument slice of \<open>NewOptimizer\<close> at an allocated address of the
  store: after construction the argument's array is what it was (same elements, same
  order) and the optimizer's own array holds the sorted copy; after any sequence of
  \<open>Optimize\<close> calls that returned, both arrays are still what they were after
  construction; and a sequence of calls does return when each quantity is at most zero
  or has tables that can be made.
\<close>

theorem catalog_never_written:
  assumes "packageSizes_in < lim st"
    and "NewOptimizer_st st packageSizes_in = Returns (opt, st1)"
  shows "arrays st1 packageSizes_in = arrays st packageSizes_in \<and>
         arrays st1 (packageSizes_at opt) = sort_descending (arrays st packageSizes_in) \<and>
         (\<forall>qs results st2.
            Optimize_calls maxAlloc st1 opt qs = Returns (results, st2) \<longrightarrow>
            arrays st2 (packageSizes_at opt) = arrays st1 (packageSizes_at opt) \<and>
            arrays st2 packageSizes_in = arrays st packageSizes_in) \<and>
         (\<forall>qs. (\<forall>q\<in>set qs. q \<le> 0 \<or>
                  tables_fit maxAlloc (q + Max (set (arrays st packageSizes_in)) + 1)) \<longrightarrow>
               (\<exists>results st2. Optimize_calls maxAlloc st1 opt qs = Returns (results, st2)))"
proof -
  let ?xs = "arrays st packageSizes_in"
  note new = NewOptimizer_st_Returns[OF assms]
  have at: "packageSizes_at opt = lim st" using new by simp
  have sb: "same_but (lim st) st st1" using new by simp
  have inp: "arrays st1 packageSizes_in = ?xs"
    using sb assms(1) by (auto simp: same_but_def)
  have lim1: "packageSizes_at opt < lim st1" "packageSizes_in < lim st1"
    using sb at assms(1) by (auto simp: same_but_def)
  have cat: "arrays st1 (packageSizes_at opt) = sort_descending ?xs" using new at by simp
  have pure: "NewOptimizer ?xs = Returns \<lparr>packageSizes = arrays st1 (packageSizes_at opt)\<rparr>"
    using new at by simp
  have later: "arrays st2 (packageSizes_at opt) = arrays st1 (packageSizes_at opt) \<and>
      arrays st2 packageSizes_in = ?xs"
    if "Optimize_calls maxAlloc st1 opt qs = Returns (results, st2)" for qs results st2
  proof -
    from Optimize_calls_frame[OF lim1(1) that] have "extends st1 st2" by simp
    then show ?thesis using lim1 inp by (auto simp: extends_def)
  qed
  have "set (arrays st1 (packageSizes_at opt)) = set ?xs"
    unfolding cat by (simp add: sort_descending_def)
  then have returns: "\<exists>results st2. Optimize_calls maxAlloc st1 opt qs = Returns (results, st2)"
    if "\<forall>q\<in>set qs. q \<le> 0 \<or> tables_fit maxAlloc (q + Max (set ?xs) + 1)" for qs
    using Optimize_calls_returns[OF lim1(1) pure, of qs maxAlloc] that by simp
  show ?thesis using inp cat later returns by blast
qed

theorem catalog_never_written_witness:
  "\<exists>opt st1. NewOptimizer_st \<lparr>arrays = (\<lambda>a. if a = 0 then [3, 5] else []), lim = 1\<rparr> 0 =
       Returns (opt, st1) \<and>
     arrays st1 0 = [3, 5] \<and> arrays st1 (packageSizes_at opt) = [5, 3] \<and>
     (\<exists>results st2. Optimize_calls (2 ^ 48) st1 opt [4, 7] = Returns (results, st2) \<and>
        arrays st2 (packageSizes_at opt) = [5, 3] \<and> arrays st2 0 = [3, 5])"
proof -
  let ?st = "\<lparr>arrays = (\<lambda>a. if a = 0 then [3, 5] else []), lim = 1\<rparr>"
  obtain opt st1 where n: "NewOptimizer_st ?st 0 = Returns (opt, st1)"
    by (simp add: NewOptimizer_st_def make_ints_def Let_def)
  have l: "0 < lim ?st" by simp
  note c = catalog_never_written[OF l n, of "2 ^ 48"]
  have f: "arrays st1 0 = [3, 5]" "arrays st1 (packageSizes_at opt) = [5, 3]"
    using c by (simp_all add: sort_descending_def)
  have "\<forall>q\<in>set [4, 7]. q \<le> 0 \<or> tables_fit (2 ^ 48) (q + Max (set (arrays ?st 0)) + 1)"
    by (simp add: tables_fit_def)
  with c obtain results st2 where
    r: "Optimize_calls (2 ^ 48) st1 opt [4, 7] = Returns (results, st2)"
    by blast
  with c have "arrays st2 (packageSizes_at opt) = arrays st1 (packageSizes_at opt)"
    "arrays st2 0 = arrays ?st 0"
    by blast+
  then have "Optimize_calls (2 ^ 48) st1 opt [4, 7] = Returns (results, st2) \<and>
        arrays st2 (packageSizes_at opt) = [5, 3] \<and> arrays st2 0 = [3, 5]"
    using f r by simp
  then show ?thesis using n f by blast
qed

end
